theory Spec2Isabelle
  imports Complex_Main "HOL-Library.Log_Nat"
begin

section \<open>Numbers\<close>

text \<open>
  A JavaScript number is an IEEE 754 double. Counters are modelled as natural numbers
  (they start at 0 and are only ever incremented by one, which is exact below \<open>2^53\<close>),
  clock readings, latencies and the integer options as integers. The result of a division
  or of a multiplication is the exact result rounded to the nearest double, ties to the
  even mantissa, as IEEE 754 prescribes; it is a \<open>number\<close>, whose finite values are the
  rationals that are doubles.
\<close>

datatype number = Finite rat | PlusInfinity | MinusInfinity | NaN

definition pow2 :: "int \<Rightarrow> rat" where
  "pow2 k = (if 0 \<le> k then 2 ^ nat k else 1 / 2 ^ nat (- k))"

text \<open>\<open>exponent x\<close> is the integer \<open>e\<close> with \<open>2^e \<le> x < 2^(e+1)\<close>, for positive \<open>x\<close>.\<close>

definition exponent :: "rat \<Rightarrow> int" where
  "exponent x =
     (case quotient_of x of (p, q) \<Rightarrow>
        let d = bitlen p - bitlen q in if pow2 d \<le> x then d else d - 1)"

definition roundTiesToEven :: "rat \<Rightarrow> int" where
  "roundTiesToEven x =
     (let n = \<lfloor>x\<rfloor>; r = x - of_int n
      in if r < 1 / 2 then n else if 1 / 2 < r then n + 1 else if even n then n else n + 1)"

text \<open>
  Rounding to a double: 53 bits of mantissa at the exponent of the value, the exponent at
  least \<open>-1022\<close> (below that the doubles are subnormal and equally spaced), and infinity
  when the rounded value reaches \<open>2^1024\<close>.
\<close>

definition double :: "rat \<Rightarrow> number" where
  "double x =
     (if x = 0 then Finite 0
      else
        let e = max (exponent \<bar>x\<bar>) (- 1022);
            m = roundTiesToEven (\<bar>x\<bar> / pow2 (e - 52))
        in if 1023 < e \<or> (e = 1023 \<and> m = 2 ^ 53)
           then (if 0 < x then PlusInfinity else MinusInfinity)
           else Finite (sgn x * of_int m * pow2 (e - 52)))"

text \<open>
  The operators \<open>/\<close>, \<open>*\<close> and \<open>>\<close> on the operands the program gives them: a quotient
  of two integers (a nonzero count over zero is an infinity, zero over zero is \<open>NaN\<close>), a
  product of a number with a finite factor, and a comparison with a finite bound, which
  is false for \<open>NaN\<close>.
\<close>

definition js_divide :: "rat \<Rightarrow> rat \<Rightarrow> number" where
  "js_divide a b =
     (if b = 0 then (if a = 0 then NaN else if 0 < a then PlusInfinity else MinusInfinity)
      else double (a / b))"

definition js_times :: "number \<Rightarrow> rat \<Rightarrow> number" where
  "js_times x k =
     (case x of
        Finite r \<Rightarrow> double (r * k)
      | PlusInfinity \<Rightarrow> (if 0 < k then PlusInfinity else if k < 0 then MinusInfinity else NaN)
      | MinusInfinity \<Rightarrow> (if 0 < k then MinusInfinity else if k < 0 then PlusInfinity else NaN)
      | NaN \<Rightarrow> NaN)"

definition js_greater :: "number \<Rightarrow> rat \<Rightarrow> bool" where
  "js_greater x t =
     (case x of Finite r \<Rightarrow> r > t | PlusInfinity \<Rightarrow> True | MinusInfinity \<Rightarrow> False
      | NaN \<Rightarrow> False)"

section \<open>Data model of status.ts\<close>

text \<open>
  Percentile ranks are rationals. Reading a property of \<open>undefined\<close> is the error value
  \<open>TypeError\<close>; the array constructor throws \<open>RangeError\<close> for a length of \<open>2^32\<close> or
  more.
\<close>

datatype error = TypeError | RangeError

text \<open>Sequencing of calls that may throw: the first error ends the computation.\<close>

definition bind_r :: "error + 'a \<Rightarrow> ('a \<Rightarrow> error + 'b) \<Rightarrow> error + 'b" where
  "bind_r r f = (case r of Inl e \<Rightarrow> Inl e | Inr x \<Rightarrow> f x)"

record Bucket =
  failures :: nat
  successes :: nat
  fires :: nat
  timeouts :: nat
  percentiles :: "rat \<rightharpoonup> int"
  latencyTimes :: "int list"
  isCircuitBreakerOpen :: bool

record Stats = Bucket +
  latencyMean :: "number option"

record StatusOptions =
  rollingCountBuckets :: int
  rollingCountTimeout :: int
  rollingPercentilesEnabled :: "bool option"

text \<open>
  The timers of the runtime. \<open>setTimeout\<close> and \<open>setInterval\<close> return a fresh handle and
  register a callback; the callbacks of the program are closed terms, so a pending timer
  is stored with a tag that names its callback, with the time at which it is due and, for
  an interval, its period. The runtime (Node.js) uses the delay it is given truncated to
  an integer, and 1 ms when the delay is below 1, above \<open>2^31 - 1\<close> or not a number.
  \<open>clearTimeout\<close> and \<open>clearInterval\<close> remove the handle; clearing a handle that is not
  pending does nothing.
\<close>

datatype callback =
    RotateBuckets
  | WarmUpExpired
  | ResetExpired
  | RequestTimedOut int

record Timer =
  callback :: callback
  dueAt :: int
  every :: "int option"

record Runtime =
  nextTimer :: nat
  pending :: "(nat \<times> Timer) list"

definition timerDelay :: "number \<Rightarrow> int" where
  "timerDelay delay =
     (case delay of
        Finite r \<Rightarrow> if 1 \<le> r \<and> r \<le> 2147483647 then \<lfloor>r\<rfloor> else 1
      | _ \<Rightarrow> 1)"

definition register :: "Timer \<Rightarrow> Runtime \<Rightarrow> nat \<times> Runtime" where
  "register t rt =
     (nextTimer rt,
      rt\<lparr>nextTimer := Suc (nextTimer rt), pending := (nextTimer rt, t) # pending rt\<rparr>)"

definition setTimeout :: "callback \<Rightarrow> number \<Rightarrow> int \<Rightarrow> Runtime \<Rightarrow> nat \<times> Runtime" where
  "setTimeout c delay now rt =
     register \<lparr>callback = c, dueAt = now + timerDelay delay, every = None\<rparr> rt"

definition setInterval :: "callback \<Rightarrow> number \<Rightarrow> int \<Rightarrow> Runtime \<Rightarrow> nat \<times> Runtime" where
  "setInterval c delay now rt =
     register
       \<lparr>callback = c, dueAt = now + timerDelay delay, every = Some (timerDelay delay)\<rparr> rt"

definition clearTimer :: "nat \<Rightarrow> Runtime \<Rightarrow> Runtime" where
  "clearTimer h rt = rt\<lparr>pending := filter (\<lambda>e. fst e \<noteq> h) (pending rt)\<rparr>"

definition clearIfSet :: "nat option \<Rightarrow> Runtime \<Rightarrow> Runtime" where
  "clearIfSet t rt = (case t of None \<Rightarrow> rt | Some h \<Rightarrow> clearTimer h rt)"

definition newRuntime :: Runtime where
  "newRuntime = \<lparr>nextTimer = 0, pending = []\<rparr>"

text \<open>
  The private fields of class Status. The fields \<open>percentiles\<close> and
  \<open>rollingPercentilesEnabled\<close> carry the suffix \<open>_S\<close> because the bucket and the options
  have fields of the same names.
\<close>

record Status =
  buckets :: "Bucket list"
  timeout :: int
  percentiles_S :: "rat list"
  rollingPercentilesEnabled_S :: bool
  rotationTimer :: "nat option"

section \<open>Operations of class Status\<close>

definition createBucket :: Bucket where
  "createBucket =
     \<lparr>failures = 0, successes = 0, fires = 0, timeouts = 0, percentiles = Map.empty,
      latencyTimes = [], isCircuitBreakerOpen = False\<rparr>"

text \<open>\<open>this.createBucket() as Stats\<close>: the same object, \<open>latencyMean\<close> not yet set.\<close>

definition asStats :: "Bucket \<Rightarrow> Stats" where
  "asStats b =
     \<lparr>failures = failures b, successes = successes b, fires = fires b,
      timeouts = timeouts b, percentiles = percentiles b, latencyTimes = latencyTimes b,
      isCircuitBreakerOpen = isCircuitBreakerOpen b, latencyMean = None\<rparr>"

definition defaultPercentiles :: "rat list" where
  "defaultPercentiles = [0, 1/4, 1/2, 3/4, 9/10, 95/100, 99/100, 995/1000, 1]"

text \<open>
  \<open>rotateBuckets()\<close> registers the interval timer, with the period
  \<open>this.timeout / this.buckets.length\<close>.
\<close>

definition rotateBuckets :: "int \<Rightarrow> Status \<Rightarrow> Runtime \<Rightarrow> Status \<times> Runtime" where
  "rotateBuckets now s rt =
     (let (h, rt') =
            setInterval RotateBuckets
              (js_divide (of_int (timeout s)) (of_nat (length (buckets s)))) now rt
      in (s\<lparr>rotationTimer := Some h\<rparr>, rt'))"

text \<open>
  The constructor. \<open>Array.from({ length: n }, ...)\<close> builds \<open>n\<close> buckets, none when
  \<open>n\<close> is zero or negative, and throws \<open>RangeError\<close> when \<open>n\<close> is \<open>2^32\<close> or more.
  \<open>rollingPercentilesEnabled !== false\<close> makes an absent option count as true. The
  constructor itself validates nothing. (That a large array may exhaust the memory is not
  modelled.)
\<close>

definition Status_new :: "StatusOptions \<Rightarrow> int \<Rightarrow> Runtime \<Rightarrow> error + (Status \<times> Runtime)" where
  "Status_new opts now rt =
     (if 4294967296 \<le> rollingCountBuckets opts then Inl RangeError
      else
        Inr (rotateBuckets now
               \<lparr>buckets = replicate (nat (rollingCountBuckets opts)) createBucket,
                timeout = rollingCountTimeout opts,
                percentiles_S = defaultPercentiles,
                rollingPercentilesEnabled_S = (rollingPercentilesEnabled opts \<noteq> Some False),
                rotationTimer = None\<rparr> rt))"

text \<open>
  The body of the interval callback: \<open>this.buckets.pop()\<close> drops the last bucket (and
  does nothing on an empty array), \<open>this.buckets.unshift(this.createBucket())\<close> puts a new
  bucket in front.
\<close>

definition rotation :: "Status \<Rightarrow> Status" where
  "rotation s = s\<lparr>buckets := createBucket # butlast (buckets s)\<rparr>"

text \<open>An array read \<open>xs[i]\<close>: \<open>undefined\<close> (here \<open>None\<close>) outside the array.\<close>

definition js_nth :: "'a list \<Rightarrow> int \<Rightarrow> 'a option" where
  "js_nth xs i = (if 0 \<le> i \<and> i < int (length xs) then Some (xs ! nat i) else None)"

definition calculatePercentile :: "rat \<Rightarrow> int list \<Rightarrow> int option" where
  "calculatePercentile percentile lts =
     (if length lts = 0 then Some 0
      else if percentile \<le> 0 then js_nth lts 0
      else if percentile \<ge> 1 then js_nth lts (int (length lts) - 1)
      else js_nth lts (\<lceil>percentile * of_nat (length lts)\<rceil> - 1))"

text \<open>The reducer of the \<open>stats\<close> getter, one bucket at a time.\<close>

definition accumulate :: "Stats \<Rightarrow> Bucket \<Rightarrow> Stats" where
  "accumulate acc bucket =
     acc\<lparr>failures := failures acc + failures bucket,
         successes := successes acc + successes bucket,
         fires := fires acc + fires bucket,
         timeouts := timeouts acc + timeouts bucket,
         latencyTimes := latencyTimes acc @ latencyTimes bucket\<rparr>"

definition setPercentile :: "int list \<Rightarrow> Stats \<Rightarrow> rat \<Rightarrow> Stats" where
  "setPercentile lts acc p = acc\<lparr>percentiles := (percentiles acc)(p := calculatePercentile p lts)\<rparr>"

definition zeroPercentile :: "Stats \<Rightarrow> rat \<Rightarrow> Stats" where
  "zeroPercentile acc p = acc\<lparr>percentiles := (percentiles acc)(p \<mapsto> 0)\<rparr>"

text \<open>
  The getter \<open>stats\<close>. The last assignment reads \<open>this.buckets[0].isCircuitBreakerOpen\<close>,
  which throws when there is no bucket.
\<close>

definition stats :: "Status \<Rightarrow> error + Stats" where
  "stats s =
     (let acc = foldl accumulate (asStats createBucket) (buckets s);
          sorted = sort (latencyTimes acc);
          acc = acc\<lparr>latencyTimes := sorted\<rparr>;
          acc = acc\<lparr>latencyMean :=
                  Some (if length sorted > 0
                        then js_divide (of_int (foldl (+) 0 sorted)) (of_nat (length sorted))
                        else Finite 0)\<rparr>;
          acc = (if rollingPercentilesEnabled_S s
                 then foldl (setPercentile sorted) acc (percentiles_S s)
                 else foldl zeroPercentile acc (percentiles_S s))
      in case buckets s of
           [] \<Rightarrow> Inl TypeError
         | b # _ \<Rightarrow> Inr (acc\<lparr>isCircuitBreakerOpen := isCircuitBreakerOpen b\<rparr>))"

text \<open>
  \<open>increment(property, latencyRunTime)\<close>. The repository calls it with the four counters
  only, and these are the properties modelled. \<open>this.buckets[0]\<close> is \<open>undefined\<close> when
  there is no bucket, and the increment then throws.
\<close>

datatype property = Failures | Successes | Fires | Timeouts

definition bump :: "property \<Rightarrow> Bucket \<Rightarrow> Bucket" where
  "bump p b =
     (case p of
        Failures \<Rightarrow> b\<lparr>failures := failures b + 1\<rparr>
      | Successes \<Rightarrow> b\<lparr>successes := successes b + 1\<rparr>
      | Fires \<Rightarrow> b\<lparr>fires := fires b + 1\<rparr>
      | Timeouts \<Rightarrow> b\<lparr>timeouts := timeouts b + 1\<rparr>)"

definition push :: "int option \<Rightarrow> Bucket \<Rightarrow> Bucket" where
  "push latencyRunTime b =
     (case latencyRunTime of
        None \<Rightarrow> b
      | Some l \<Rightarrow> b\<lparr>latencyTimes := latencyTimes b @ [l]\<rparr>)"

definition increment :: "property \<Rightarrow> int option \<Rightarrow> Status \<Rightarrow> error + Status" where
  "increment p latencyRunTime s =
     (case buckets s of
        [] \<Rightarrow> Inl TypeError
      | currentBucket # rest \<Rightarrow>
          Inr (s\<lparr>buckets := push latencyRunTime (bump p currentBucket) # rest\<rparr>))"

definition open_S :: "Status \<Rightarrow> error + Status" where
  "open_S s =
     (case buckets s of
        [] \<Rightarrow> Inl TypeError
      | b # rest \<Rightarrow> Inr (s\<lparr>buckets := b\<lparr>isCircuitBreakerOpen := True\<rparr> # rest\<rparr>))"

definition close_S :: "Status \<Rightarrow> error + Status" where
  "close_S s =
     (case buckets s of
        [] \<Rightarrow> Inl TypeError
      | b # rest \<Rightarrow> Inr (s\<lparr>buckets := b\<lparr>isCircuitBreakerOpen := False\<rparr> # rest\<rparr>))"

definition shutdown_S :: "Status \<Rightarrow> Runtime \<Rightarrow> Runtime" where
  "shutdown_S s rt = clearIfSet (rotationTimer s) rt"

section \<open>Data model of the circuit breaker (class CircuitBreakerMiddleware)\<close>

text \<open>
  The options after the defaults have been merged in. The fields that the options of
  Status also have carry the suffix \<open>_O\<close>. \<open>timeout: false\<close> is \<open>None\<close>. The name and
  the logger have no effect on the state and are left out. The response is modelled by the
  one field the default error predicate reads.
\<close>

record Response =
  statusCode :: int

record CircuitBreakerOptions =
  logOnly :: bool
  timeout_O :: "int option"
  resetTimeout_O :: int
  rollingCountTimeout_O :: int
  rollingCountBuckets_O :: int
  rollingPercentilesEnabled_O :: bool
  errorThresholdPercentage :: rat
  enabled :: bool
  allowWarmUp :: bool
  volumeThreshold :: int
  isError :: "Response \<Rightarrow> bool"

definition defaultErrorFn :: "Response \<Rightarrow> bool" where
  "defaultErrorFn res = (statusCode res \<ge> 400)"

definition defaultOptions :: CircuitBreakerOptions where
  "defaultOptions =
     \<lparr>logOnly = False, timeout_O = Some 10000, resetTimeout_O = 30000,
      rollingCountTimeout_O = 10000, rollingCountBuckets_O = 10,
      rollingPercentilesEnabled_O = True, errorThresholdPercentage = 50, enabled = True,
      allowWarmUp = False, volumeThreshold = 0, isError = defaultErrorFn\<rparr>"

datatype circuit = Open | Closed | HalfOpen | Shutdown

record CircuitBreakerMiddleware =
  status :: Status
  options :: CircuitBreakerOptions
  warmupTimeout :: "nat option"
  state :: circuit
  warmUp :: bool
  lastTimerAt :: int
  resetTimeout :: "nat option"

text \<open>
  A method runs on the breaker and on the timers of the runtime. \<open>Inl e\<close> says that the
  method threw \<open>e\<close> or that the promise it returned was rejected with \<open>e\<close>; the model does
  not follow the object after that.
\<close>

type_synonym world = "CircuitBreakerMiddleware \<times> Runtime"

text \<open>
  The error rate of \<open>fail\<close> is \<open>(stats.failures / stats.fires) * 100\<close>, two rounded
  operations on the counters.
\<close>

definition errorRate :: "nat \<Rightarrow> nat \<Rightarrow> number" where
  "errorRate fl fr = js_times (js_divide (of_nat fl) (of_nat fr)) 100"

section \<open>Operations of the circuit breaker\<close>

text \<open>
  The constructor: the window, the warm-up flag and its one-shot timer with the delay
  \<open>rollingCountTimeout\<close>, and a read of the snapshot for the logger.
\<close>

definition CircuitBreakerMiddleware_new ::
    "CircuitBreakerOptions \<Rightarrow> int \<Rightarrow> Runtime \<Rightarrow> error + world" where
  "CircuitBreakerMiddleware_new opts now rt =
     bind_r (Status_new
               \<lparr>rollingCountBuckets = rollingCountBuckets_O opts,
                rollingCountTimeout = rollingCountTimeout_O opts,
                rollingPercentilesEnabled = Some (rollingPercentilesEnabled_O opts)\<rparr> now rt)
       (\<lambda>(st, rt1).
          let (wt, rt2) =
                (if allowWarmUp opts
                 then (let (h, r) = setTimeout WarmUpExpired
                                      (Finite (of_int (rollingCountTimeout_O opts))) now rt1
                       in (Some h, r))
                 else (None, rt1))
          in bind_r (stats st) (\<lambda>_.
               Inr (\<lparr>status = st, options = opts, warmupTimeout = wt, state = Closed,
                     warmUp = allowWarmUp opts, lastTimerAt = now, resetTimeout = None\<rparr>,
                    rt2)))"

definition startTimer :: "int \<Rightarrow> world \<Rightarrow> world" where
  "startTimer now w =
     (case w of (cb, rt) \<Rightarrow>
        (let (h, rt') = setTimeout ResetExpired
                          (Finite (of_int (resetTimeout_O (options cb)))) now rt
         in (cb\<lparr>lastTimerAt := now, resetTimeout := Some h\<rparr>, rt')))"

definition open_CB :: "int \<Rightarrow> world \<Rightarrow> error + world" where
  "open_CB now w =
     (case w of (cb, rt) \<Rightarrow>
        if state cb \<noteq> Open
        then bind_r (open_S (status cb)) (\<lambda>st.
               Inr (startTimer now (cb\<lparr>state := Open, status := st\<rparr>, rt)))
        else Inr w)"

definition close_CB :: "world \<Rightarrow> error + world" where
  "close_CB w =
     (case w of (cb, rt) \<Rightarrow>
        if state cb \<noteq> Closed
        then bind_r (close_S (status cb)) (\<lambda>st.
               Inr (cb\<lparr>state := Closed, status := st\<rparr>, clearIfSet (resetTimeout cb) rt))
        else Inr w)"

definition shutdown_CB :: "world \<Rightarrow> world" where
  "shutdown_CB w =
     (case w of (cb, rt) \<Rightarrow>
        (cb\<lparr>state := Shutdown\<rparr>,
         shutdown_S (status cb) (clearIfSet (warmupTimeout cb) (clearIfSet (resetTimeout cb) rt))))"

text \<open>
  \<open>fail\<close>: the increment, then (after the \<open>await\<close>, before any other timer or event is
  served) the decision. The error and the latency are only logged.
\<close>

definition fail :: "int \<Rightarrow> world \<Rightarrow> error + world" where
  "fail now w =
     (case w of (cb, rt) \<Rightarrow>
        bind_r (increment Failures None (status cb)) (\<lambda>st.
          let cb1 = cb\<lparr>status := st\<rparr> in
          if warmUp cb1 then Inr (cb1, rt)
          else bind_r (stats (status cb1)) (\<lambda>sn.
            if int (fires sn) < volumeThreshold (options cb1) \<and> \<not> (state cb1 = HalfOpen)
            then Inr (cb1, rt)
            else
              let rate = errorRate (failures sn) (fires sn) in
              if js_greater rate (errorThresholdPercentage (options cb1))
                 \<or> state cb1 = HalfOpen
              then open_CB now (cb1, rt)
              else Inr (cb1, rt))))"

definition success :: "world \<Rightarrow> error + world" where
  "success w =
     (case w of (cb, rt) \<Rightarrow>
        bind_r (increment Successes None (status cb)) (\<lambda>st.
          let cb1 = cb\<lparr>status := st\<rparr> in
          if state cb1 = HalfOpen then close_CB (cb1, rt) else Inr (cb1, rt)))"

text \<open>
  The middleware. What it leaves behind for one request is the closure of its handlers:
  the start time and the handle of the deadline timer. A request is passed on without
  bookkeeping when the breaker is disabled, answered with 503 when the circuit is open
  (unless \<open>logOnly\<close>), and otherwise passed on with the handlers installed.
\<close>

record Invocation =
  startedAt :: int
  timeoutId :: "nat option"

datatype admission = Bypassed | Rejected | Admitted Invocation

definition middleware :: "int \<Rightarrow> world \<Rightarrow> error + (world \<times> admission)" where
  "middleware now w =
     (case w of (cb, rt) \<Rightarrow>
        if \<not> enabled (options cb) then Inr (w, Bypassed)
        else bind_r (increment Fires None (status cb)) (\<lambda>st.
          let cb1 = cb\<lparr>status := st\<rparr> in
          if state cb1 = Open \<and> \<not> logOnly (options cb1) then Inr ((cb1, rt), Rejected)
          else
            (case timeout_O (options cb1) of
               None \<Rightarrow> Inr ((cb1, rt), Admitted \<lparr>startedAt = now, timeoutId = None\<rparr>)
             | Some d \<Rightarrow>
                 (let (h, rt') = setTimeout (RequestTimedOut now) (Finite (of_int d)) now rt
                  in Inr ((cb1, rt'), Admitted \<lparr>startedAt = now, timeoutId = Some h\<rparr>)))))"

text \<open>The callback of the deadline timer.\<close>

definition requestTimedOut :: "int \<Rightarrow> int \<Rightarrow> world \<Rightarrow> error + world" where
  "requestTimedOut started now w =
     (case w of (cb, rt) \<Rightarrow>
        bind_r (increment Timeouts (Some (now - started)) (status cb)) (\<lambda>st.
          fail now (cb\<lparr>status := st\<rparr>, rt)))"

text \<open>The handlers of the response events \<open>finish\<close> and \<open>close\<close>.\<close>

definition onFinish :: "Invocation \<Rightarrow> Response \<Rightarrow> int \<Rightarrow> world \<Rightarrow> error + world" where
  "onFinish iv res now w =
     (case w of (cb, rt) \<Rightarrow>
        (let rt' = clearIfSet (timeoutId iv) rt
         in if isError (options cb) res then fail now (cb, rt') else success (cb, rt')))"

definition onClose :: "Invocation \<Rightarrow> int \<Rightarrow> world \<Rightarrow> error + world" where
  "onClose iv now w =
     (case w of (cb, rt) \<Rightarrow> fail now (cb, clearIfSet (timeoutId iv) rt))"

text \<open>
  The callback of the pending timer \<open>h\<close> runs at time \<open>now\<close>: a timeout is removed, an
  interval stays and is due again one period later. A handle that is not pending has no
  callback to run (\<open>None\<close>).
\<close>

definition rearm :: "nat \<Rightarrow> int \<Rightarrow> Runtime \<Rightarrow> Runtime" where
  "rearm h due rt =
     rt\<lparr>pending := map (\<lambda>e. if fst e = h then (h, (snd e)\<lparr>dueAt := due\<rparr>) else e) (pending rt)\<rparr>"

definition fire :: "nat \<Rightarrow> int \<Rightarrow> world \<Rightarrow> (error + world) option" where
  "fire h now w =
     (case w of (cb, rt) \<Rightarrow>
        (case map_of (pending rt) h of
           None \<Rightarrow> None
         | Some t \<Rightarrow>
             (let rt' = (case every t of None \<Rightarrow> clearTimer h rt | Some d \<Rightarrow> rearm h (now + d) rt)
              in case callback t of
                   RotateBuckets \<Rightarrow> Some (Inr (cb\<lparr>status := rotation (status cb)\<rparr>, rt'))
                 | WarmUpExpired \<Rightarrow> Some (Inr (cb\<lparr>warmUp := False\<rparr>, rt'))
                 | ResetExpired \<Rightarrow> Some (Inr (cb\<lparr>state := HalfOpen\<rparr>, rt'))
                 | RequestTimedOut started \<Rightarrow> Some (requestTimedOut started now (cb, rt')))))"

text \<open>
  The runtime serves a timer no earlier than it is due: \<open>serve h now\<close> runs the callback of
  \<open>h\<close> when \<open>h\<close> is pending and due at \<open>now\<close>.
\<close>

definition serve :: "nat \<Rightarrow> int \<Rightarrow> world \<Rightarrow> (error + world) option" where
  "serve h now w =
     (case map_of (pending (snd w)) h of
        None \<Rightarrow> None
      | Some t \<Rightarrow> if now < dueAt t then None else fire h now w)"

section \<open>Sequences of calls\<close>

text \<open>
  The sorted latency samples of the whole window, as the getter \<open>stats\<close> computes them.
\<close>

definition window :: "Status \<Rightarrow> int list" where
  "window s = sort (concat (map latencyTimes (buckets s)))"

text \<open>A counter summed over the buckets of the window, as the reducer of \<open>stats\<close> sums it.\<close>

definition aggregate :: "(Bucket \<Rightarrow> nat) \<Rightarrow> Status \<Rightarrow> nat" where
  "aggregate f s = sum_list (map f (buckets s))"

text \<open>
  A sequence of calls on the window, in order: \<open>increment\<close>, one run of the interval
  callback, \<open>open\<close> and \<open>close\<close>.
\<close>

datatype call = Increment property "int option" | Rotation | MarkOpen | MarkClose

definition call :: "call \<Rightarrow> Status \<Rightarrow> error + Status" where
  "call c s =
     (case c of
        Increment p l \<Rightarrow> increment p l s
      | Rotation \<Rightarrow> Inr (rotation s)
      | MarkOpen \<Rightarrow> open_S s
      | MarkClose \<Rightarrow> close_S s)"

fun calls :: "call list \<Rightarrow> Status \<Rightarrow> error + Status" where
  "calls [] s = Inr s"
| "calls (c # cs) s = bind_r (call c s) (calls cs)"

text \<open>
  What the breaker records, as events: \<open>Fire\<close> is the call
  \<open>this.status.increment("fires")\<close> with which the middleware counts a request, \<open>Fail\<close> and
  \<open>Success\<close> are the calls of \<open>fail\<close> and \<open>success\<close> by a handler (with the clock reading
  that \<open>fail\<close> may pass on to \<open>startTimer\<close>), \<open>Rotate\<close> is one run of the interval
  callback.
\<close>

datatype event = Fire | Fail int | Success | Rotate

definition step :: "event \<Rightarrow> world \<Rightarrow> error + world" where
  "step e w =
     (case w of (cb, rt) \<Rightarrow>
        (case e of
           Fire \<Rightarrow> bind_r (increment Fires None (status cb)) (\<lambda>st. Inr (cb\<lparr>status := st\<rparr>, rt))
         | Fail now \<Rightarrow> fail now w
         | Success \<Rightarrow> success w
         | Rotate \<Rightarrow> Inr (cb\<lparr>status := rotation (status cb)\<rparr>, rt)))"

fun run :: "event list \<Rightarrow> world \<Rightarrow> error + world" where
  "run [] w = Inr w"
| "run (e # es) w = bind_r (step e w) (run es)"

text \<open>A request that is counted and then reported as failed, \<open>n\<close> times over.\<close>

definition failing :: "nat \<Rightarrow> int \<Rightarrow> event list" where
  "failing n now = concat (replicate n [Fire, Fail now])"

text \<open>One request per outcome: counted, then reported as a success or as a failure.\<close>

definition recorded :: "int \<Rightarrow> bool list \<Rightarrow> event list" where
  "recorded now os = concat (map (\<lambda>ok. [Fire, if ok then Success else Fail now]) os)"

text \<open>
  The invocation count of the snapshot stays below the volume threshold along a run:
  after every event, \<open>stats.fires < volumeThreshold\<close>.
\<close>

fun staysBelow :: "event list \<Rightarrow> world \<Rightarrow> bool" where
  "staysBelow [] w = True"
| "staysBelow (e # es) w =
     (case step e w of
        Inl _ \<Rightarrow> False
      | Inr w' \<Rightarrow>
          (case stats (status (fst w')) of
             Inl _ \<Rightarrow> False
           | Inr sn \<Rightarrow> int (fires sn) < volumeThreshold (options (fst w')) \<and> staysBelow es w'))"

text \<open>
  The decision of \<open>fail\<close>, stated on the counts of the window before the failure is
  counted: \<open>fail\<close> opens the circuit exactly when this holds.
\<close>

definition trips :: "CircuitBreakerMiddleware \<Rightarrow> bool" where
  "trips cb \<longleftrightarrow>
     \<not> warmUp cb \<and>
     (state cb = HalfOpen \<or>
      (\<not> int (aggregate fires (status cb)) < volumeThreshold (options cb) \<and>
       js_greater
         (errorRate (Suc (aggregate failures (status cb))) (aggregate fires (status cb)))
         (errorThresholdPercentage (options cb))))"

text \<open>
  The guard of \<open>fail\<close> on the counts of the snapshot that it reads: the invocation count
  has reached the volume threshold and the error rate exceeds the error threshold.
\<close>

definition passes :: "CircuitBreakerOptions \<Rightarrow> nat \<Rightarrow> nat \<Rightarrow> bool" where
  "passes opts fl fr \<longleftrightarrow>
     volumeThreshold opts \<le> int fr \<and> js_greater (errorRate fl fr) (errorThresholdPercentage opts)"

text \<open>
  What a call leaves of the breaker: the counts of the window grow by the given numbers,
  and the number of buckets, the options, the warm-up flag and the handle of the warm-up
  timer stay.
\<close>

definition follows :: "world \<Rightarrow> world \<Rightarrow> nat \<Rightarrow> nat \<Rightarrow> nat \<Rightarrow> nat \<Rightarrow> bool" where
  "follows w w' df ds di dt \<longleftrightarrow>
     aggregate failures (status (fst w')) = aggregate failures (status (fst w)) + df \<and>
     aggregate successes (status (fst w')) = aggregate successes (status (fst w)) + ds \<and>
     aggregate fires (status (fst w')) = aggregate fires (status (fst w)) + di \<and>
     aggregate timeouts (status (fst w')) = aggregate timeouts (status (fst w)) + dt \<and>
     length (buckets (status (fst w'))) = length (buckets (status (fst w))) \<and>
     options (fst w') = options (fst w) \<and>
     warmUp (fst w') = warmUp (fst w) \<and>
     warmupTimeout (fst w') = warmupTimeout (fst w)"

section \<open>The window as objects in a store\<close>

text \<open>
  In the program a bucket is an object, its sample list is an array and its percentile
  table is another object; the window holds references to its buckets, and \<open>push\<close>,
  \<open>sort\<close> and the assignments of the getter \<open>stats\<close> write in place. Whether the
  getter writes to a bucket therefore depends on which references it writes through. This
  section models the class once more with the references explicit. A store has one table
  per kind of object, a reference is an index into its table, and allocation appends to
  the table. The fields of a bucket object carry the suffix \<open>_o\<close>, the operations the
  suffix \<open>_h\<close>.
\<close>

record BucketObj =
  failures_o :: nat
  successes_o :: nat
  fires_o :: nat
  timeouts_o :: nat
  percentiles_o :: nat
  latencyTimes_o :: nat
  isCircuitBreakerOpen_o :: bool
  latencyMean_o :: "number option"

record Store =
  objects :: "BucketObj list"
  arrays :: "int list list"
  dicts :: "(rat \<rightharpoonup> int) list"

text \<open>\<open>createBucket()\<close> allocates an empty table, an empty array and the object.\<close>

definition createBucket_h :: "Store \<Rightarrow> nat \<times> Store" where
  "createBucket_h st =
     (length (objects st),
      st\<lparr>dicts := dicts st @ [Map.empty],
         arrays := arrays st @ [[]],
         objects := objects st @
           [\<lparr>failures_o = 0, successes_o = 0, fires_o = 0, timeouts_o = 0,
             percentiles_o = length (dicts st), latencyTimes_o = length (arrays st),
             isCircuitBreakerOpen_o = False, latencyMean_o = None\<rparr>]\<rparr>)"

text \<open>
  The reducer of the getter: it adds the counters of the bucket to the accumulator and
  points the accumulator at a new array that holds the spread of both sample lists.
\<close>

definition accumulate_h :: "nat \<Rightarrow> Store \<Rightarrow> nat \<Rightarrow> Store" where
  "accumulate_h acc st bucket =
     (let a = objects st ! acc;
          b = objects st ! bucket;
          spread = arrays st ! latencyTimes_o a @ arrays st ! latencyTimes_o b
      in st\<lparr>arrays := arrays st @ [spread],
            objects := (objects st)
              [acc := a\<lparr>failures_o := failures_o a + failures_o b,
                        successes_o := successes_o a + successes_o b,
                        fires_o := fires_o a + fires_o b,
                        timeouts_o := timeouts_o a + timeouts_o b,
                        latencyTimes_o := length (arrays st)\<rparr>]\<rparr>)"

text \<open>\<open>sort\<close> rearranges the array that the accumulator points at, in place.\<close>

definition sort_h :: "nat \<Rightarrow> Store \<Rightarrow> Store" where
  "sort_h acc st =
     (let la = latencyTimes_o (objects st ! acc)
      in st\<lparr>arrays := (arrays st)[la := sort (arrays st ! la)]\<rparr>)"

definition mean_h :: "nat \<Rightarrow> Store \<Rightarrow> Store" where
  "mean_h acc st =
     (let a = objects st ! acc;
          lts = arrays st ! latencyTimes_o a
      in st\<lparr>objects := (objects st)
            [acc := a\<lparr>latencyMean_o :=
                Some (if length lts > 0
                      then js_divide (of_int (foldl (+) 0 lts)) (of_nat (length lts))
                      else Finite 0)\<rparr>]\<rparr>)"

text \<open>The percentile entries are written into the table that the accumulator points at.\<close>

definition setPercentile_h :: "nat \<Rightarrow> Store \<Rightarrow> rat \<Rightarrow> Store" where
  "setPercentile_h acc st p =
     (let a = objects st ! acc;
          d = percentiles_o a
      in st\<lparr>dicts := (dicts st)
            [d := (dicts st ! d)(p := calculatePercentile p (arrays st ! latencyTimes_o a))]\<rparr>)"

definition zeroPercentile_h :: "nat \<Rightarrow> Store \<Rightarrow> rat \<Rightarrow> Store" where
  "zeroPercentile_h acc st p =
     (let d = percentiles_o (objects st ! acc)
      in st\<lparr>dicts := (dicts st)[d := (dicts st ! d)(p \<mapsto> 0)]\<rparr>)"

text \<open>
  The getter, on the references \<open>bs\<close> of \<open>this.buckets\<close>, the configured percentiles
  and the enablement flag. It returns the reference of the aggregate and the store it
  leaves.
\<close>

definition stats_h :: "nat list \<Rightarrow> rat list \<Rightarrow> bool \<Rightarrow> Store \<Rightarrow> error + (nat \<times> Store)" where
  "stats_h bs ps en st0 =
     (let (acc, st) = createBucket_h st0;
          st = foldl (accumulate_h acc) st bs;
          st = sort_h acc st;
          st = mean_h acc st;
          st = (if en then foldl (setPercentile_h acc) st ps
                else foldl (zeroPercentile_h acc) st ps)
      in case bs of
           [] \<Rightarrow> Inl TypeError
         | b # _ \<Rightarrow>
             Inr (acc, st\<lparr>objects := (objects st)
                    [acc := (objects st ! acc)
                       \<lparr>isCircuitBreakerOpen_o := isCircuitBreakerOpen_o (objects st ! b)\<rparr>]\<rparr>))"

text \<open>The values behind a reference: the aggregate and a bucket as the value model has them.\<close>

definition statsOf :: "Store \<Rightarrow> nat \<Rightarrow> Stats" where
  "statsOf st r =
     (let a = objects st ! r
      in \<lparr>failures = failures_o a, successes = successes_o a, fires = fires_o a,
          timeouts = timeouts_o a, percentiles = dicts st ! percentiles_o a,
          latencyTimes = arrays st ! latencyTimes_o a,
          isCircuitBreakerOpen = isCircuitBreakerOpen_o a, latencyMean = latencyMean_o a\<rparr>)"

definition bucketOf :: "Store \<Rightarrow> nat \<Rightarrow> Bucket" where
  "bucketOf st r =
     (let a = objects st ! r
      in \<lparr>failures = failures_o a, successes = successes_o a, fires = fires_o a,
          timeouts = timeouts_o a, percentiles = dicts st ! percentiles_o a,
          latencyTimes = arrays st ! latencyTimes_o a,
          isCircuitBreakerOpen = isCircuitBreakerOpen_o a\<rparr>)"

text \<open>
  A reference is allocated when the object and the array and table it points at exist.
  A store extends another when it agrees with it on every object, array and table of the
  other. The accumulator of a read is fresh when it and what it points at lie beyond the
  store in which the read began.
\<close>

definition allocated :: "Store \<Rightarrow> nat \<Rightarrow> bool" where
  "allocated st r \<longleftrightarrow>
     r < length (objects st) \<and>
     latencyTimes_o (objects st ! r) < length (arrays st) \<and>
     percentiles_o (objects st ! r) < length (dicts st)"

definition extends :: "Store \<Rightarrow> Store \<Rightarrow> bool" where
  "extends st st' \<longleftrightarrow>
     take (length (objects st)) (objects st') = objects st \<and>
     take (length (arrays st)) (arrays st') = arrays st \<and>
     take (length (dicts st)) (dicts st') = dicts st"

definition fresh :: "Store \<Rightarrow> Store \<Rightarrow> nat \<Rightarrow> bool" where
  "fresh st0 st acc \<longleftrightarrow>
     extends st0 st \<and> allocated st acc \<and> length (objects st0) \<le> acc \<and>
     length (arrays st0) \<le> latencyTimes_o (objects st ! acc) \<and>
     length (dicts st0) \<le> percentiles_o (objects st ! acc)"

text \<open>The constructor's \<open>Array.from\<close>, \<open>increment\<close>, \<open>open\<close> and \<open>close\<close>, and the rotation.\<close>

definition emptyStore :: Store where
  "emptyStore = \<lparr>objects = [], arrays = [], dicts = []\<rparr>"

fun newBuckets_h :: "nat \<Rightarrow> Store \<Rightarrow> nat list \<times> Store" where
  "newBuckets_h 0 st = ([], st)"
| "newBuckets_h (Suc n) st =
     (let (r, st1) = createBucket_h st;
          (rs, st2) = newBuckets_h n st1
      in (r # rs, st2))"

definition bump_o :: "property \<Rightarrow> BucketObj \<Rightarrow> BucketObj" where
  "bump_o p b =
     (case p of
        Failures \<Rightarrow> b\<lparr>failures_o := failures_o b + 1\<rparr>
      | Successes \<Rightarrow> b\<lparr>successes_o := successes_o b + 1\<rparr>
      | Fires \<Rightarrow> b\<lparr>fires_o := fires_o b + 1\<rparr>
      | Timeouts \<Rightarrow> b\<lparr>timeouts_o := timeouts_o b + 1\<rparr>)"

definition increment_h :: "property \<Rightarrow> int option \<Rightarrow> nat list \<Rightarrow> Store \<Rightarrow> error + Store" where
  "increment_h p latencyRunTime bs st =
     (case bs of
        [] \<Rightarrow> Inl TypeError
      | currentBucket # _ \<Rightarrow>
          (let st1 = st\<lparr>objects := (objects st)
                        [currentBucket := bump_o p (objects st ! currentBucket)]\<rparr>
           in case latencyRunTime of
                None \<Rightarrow> Inr st1
              | Some l \<Rightarrow>
                  (let a = latencyTimes_o (objects st1 ! currentBucket)
                   in Inr (st1\<lparr>arrays := (arrays st1)[a := arrays st1 ! a @ [l]]\<rparr>))))"

definition setOpen_h :: "bool \<Rightarrow> nat list \<Rightarrow> Store \<Rightarrow> error + Store" where
  "setOpen_h v bs st =
     (case bs of
        [] \<Rightarrow> Inl TypeError
      | b # _ \<Rightarrow>
          Inr (st\<lparr>objects := (objects st)[b := (objects st ! b)\<lparr>isCircuitBreakerOpen_o := v\<rparr>]\<rparr>))"

definition call_h :: "call \<Rightarrow> nat list \<times> Store \<Rightarrow> error + (nat list \<times> Store)" where
  "call_h c w =
     (case w of (bs, st) \<Rightarrow>
        (case c of
           Increment p l \<Rightarrow> bind_r (increment_h p l bs st) (\<lambda>st'. Inr (bs, st'))
         | Rotation \<Rightarrow> (let (r, st') = createBucket_h st in Inr (r # butlast bs, st'))
         | MarkOpen \<Rightarrow> bind_r (setOpen_h True bs st) (\<lambda>st'. Inr (bs, st'))
         | MarkClose \<Rightarrow> bind_r (setOpen_h False bs st) (\<lambda>st'. Inr (bs, st'))))"

fun calls_h :: "call list \<Rightarrow> nat list \<times> Store \<Rightarrow> error + (nat list \<times> Store)" where
  "calls_h [] w = Inr w"
| "calls_h (c # cs) w = bind_r (call_h c w) (calls_h cs)"

text \<open>
  The buckets of a window are separate: no two references of the window are the same
  object, and no two buckets share their sample array.
\<close>

definition separate :: "nat list \<times> Store \<Rightarrow> bool" where
  "separate w \<longleftrightarrow>
     (case w of (bs, st) \<Rightarrow>
        distinct bs \<and> (\<forall>b\<in>set bs. allocated st b) \<and>
        distinct (map (\<lambda>b. latencyTimes_o (objects st ! b)) bs))"

section \<open>Sample inputs\<close>

text \<open>The options of the test suite of the window, and two windows with recorded samples.\<close>

definition testOptions :: StatusOptions where
  "testOptions =
     \<lparr>rollingCountBuckets = 10, rollingCountTimeout = 10000,
      rollingPercentilesEnabled = Some True\<rparr>"

definition fiveSamples :: "call list" where
  "fiveSamples =
     [Increment Successes (Some 50), Increment Successes (Some 100),
      Increment Successes (Some 150), Increment Successes (Some 200),
      Increment Successes (Some 250)]"

definition sampleStatus :: Status where
  "sampleStatus =
     \<lparr>buckets =
        [createBucket\<lparr>successes := 2, fires := 2, latencyTimes := [250, 50]\<rparr>,
         createBucket\<lparr>successes := 3, fires := 3, latencyTimes := [150, 100, 200]\<rparr>,
         createBucket],
      timeout = 10000, percentiles_S = defaultPercentiles,
      rollingPercentilesEnabled_S = True, rotationTimer = Some 0\<rparr>"

text \<open>
  The window that the constructor builds at time 0 on a runtime without timers, and the
  windows it builds for two buckets and for the options of the test suite.
\<close>

definition constructed :: "StatusOptions \<Rightarrow> error + Status" where
  "constructed opts = bind_r (Status_new opts 0 newRuntime) (\<lambda>w. Inr (fst w))"

definition twoBuckets :: Status where
  "twoBuckets =
     \<lparr>buckets = [createBucket, createBucket], timeout = 10000,
      percentiles_S = defaultPercentiles, rollingPercentilesEnabled_S = True,
      rotationTimer = Some 0\<rparr>"

definition tenBuckets :: Status where
  "tenBuckets =
     \<lparr>buckets = replicate 10 createBucket, timeout = 10000,
      percentiles_S = defaultPercentiles, rollingPercentilesEnabled_S = True,
      rotationTimer = Some 0\<rparr>"

text \<open>Two samples, a rotation and a failure, recorded on that window.\<close>

definition sampleCalls :: "call list" where
  "sampleCalls =
     [Increment Successes (Some 250), Increment Successes (Some 50), Rotation,
      Increment Failures None]"

text \<open>
  Reading the error, the number of buckets, the state and the counters of the snapshot off
  a result.
\<close>

definition thrown :: "error + 'a \<Rightarrow> error option" where
  "thrown r = (case r of Inl e \<Rightarrow> Some e | Inr _ \<Rightarrow> None)"

definition bucketCount :: "error + Status \<Rightarrow> nat option" where
  "bucketCount r = (case r of Inl _ \<Rightarrow> None | Inr s \<Rightarrow> Some (length (buckets s)))"

definition stateOf :: "error + world \<Rightarrow> circuit option" where
  "stateOf r = (case r of Inl _ \<Rightarrow> None | Inr w \<Rightarrow> Some (state (fst w)))"

definition counts :: "world \<Rightarrow> (nat \<times> nat \<times> nat \<times> nat) option" where
  "counts w =
     (case stats (status (fst w)) of
        Inl _ \<Rightarrow> None
      | Inr sn \<Rightarrow> Some (failures sn, successes sn, fires sn, timeouts sn))"

definition countsOf :: "error + world \<Rightarrow> (nat \<times> nat \<times> nat \<times> nat) option" where
  "countsOf r = (case r of Inl _ \<Rightarrow> None | Inr w \<Rightarrow> counts w)"

text \<open>A breaker with the default options, and the same breaker after \<open>shutdown()\<close>.\<close>

definition freshBreaker :: "error + world" where
  "freshBreaker = CircuitBreakerMiddleware_new defaultOptions 0 newRuntime"

definition shutDownBreaker :: "error + world" where
  "shutDownBreaker = bind_r freshBreaker (\<lambda>w. Inr (shutdown_CB w))"

text \<open>
  A request to the breaker with the default options (deadline 10000 ms) that is admitted
  at time 0 and whose deadline timer is served at time 10000: the world after the admission
  and after the timer, and the closure of the handlers of the request.
\<close>

definition timedOutRequest :: "(world \<times> world \<times> Invocation) option" where
  "timedOutRequest =
     (case freshBreaker of
        Inl _ \<Rightarrow> None
      | Inr w0 \<Rightarrow>
          (case middleware 0 w0 of
             Inr (w1, Admitted iv) \<Rightarrow>
               (case timeoutId iv of
                  None \<Rightarrow> None
                | Some h \<Rightarrow>
                    (case serve h 10000 w1 of
                       Some (Inr w2) \<Rightarrow> Some (w1, w2, iv)
                     | _ \<Rightarrow> None))
           | _ \<Rightarrow> None))"

definition onFinishWith :: "Response \<Rightarrow> Invocation \<Rightarrow> int \<Rightarrow> world \<Rightarrow> error + world" where
  "onFinishWith res iv = onFinish iv res"

text \<open>
  The counters (failures, successes, fires, timeouts) of that request after the
  admission, after the timer, and after a late signal of the given kind at time 10005.
\<close>

definition lateSignal ::
    "(Invocation \<Rightarrow> int \<Rightarrow> world \<Rightarrow> error + world) \<Rightarrow> (nat \<times> nat \<times> nat \<times> nat) option list" where
  "lateSignal handler =
     (case timedOutRequest of
        None \<Rightarrow> []
      | Some (w1, w2, iv) \<Rightarrow> [counts w1, counts w2, countsOf (handler iv 10005 w2)])"

text \<open>
  A breaker with warm-up and a short reset time that is opened by hand at time 1 and whose
  reset timer is served at time 1001, when it is due, before the warm-up timer.
\<close>

definition probingInWarmUp :: "error + world" where
  "probingInWarmUp =
     bind_r (CircuitBreakerMiddleware_new
               (defaultOptions\<lparr>allowWarmUp := True, resetTimeout_O := 1000\<rparr>) 0 newRuntime)
       (\<lambda>w. bind_r (open_CB 1 w)
          (\<lambda>w1. case resetTimeout (fst w1) of
                   None \<Rightarrow> Inr w1
                 | Some h \<Rightarrow> (case serve h 1001 w1 of None \<Rightarrow> Inr w1 | Some r \<Rightarrow> r)))"

text \<open>
  A breaker around the sample window, with the deadline timer of an earlier request
  pending beside the interval timer of the window (period 1000 ms).
\<close>

definition sampleBreaker :: CircuitBreakerMiddleware where
  "sampleBreaker =
     \<lparr>status = sampleStatus, options = defaultOptions, warmupTimeout = None, state = Closed,
      warmUp = False, lastTimerAt = 0, resetTimeout = None\<rparr>"

text \<open>
  A breaker with an error threshold of 55 percent whose window holds 10 failures of 20
  invocations, so that the next failure is the 11th of 20.
\<close>

definition roundingBreaker :: CircuitBreakerMiddleware where
  "roundingBreaker =
     \<lparr>status = sampleStatus\<lparr>buckets := [createBucket\<lparr>failures := 10, successes := 10, fires := 20\<rparr>]\<rparr>,
      options = defaultOptions\<lparr>errorThresholdPercentage := 55\<rparr>, warmupTimeout = None,
      state = Closed, warmUp = False, lastTimerAt = 0, resetTimeout = None\<rparr>"

definition rotationTimer0 :: Timer where
  "rotationTimer0 = \<lparr>callback = RotateBuckets, dueAt = 1000, every = Some 1000\<rparr>"

definition sampleRuntime :: Runtime where
  "sampleRuntime =
     \<lparr>nextTimer = 2,
      pending = [(1, \<lparr>callback = RequestTimedOut 0, dueAt = 10000, every = None\<rparr>),
                 (0, rotationTimer0)]\<rparr>"

text \<open>
  A breaker as the constructor returns it for the default options with a volume threshold
  of 3, the breaker it returns when \<open>allowWarmUp\<close> is set as well (the warm-up active
  and its timer pending), and a breaker whose error threshold is 100 percent.
\<close>

definition emptyBreaker :: CircuitBreakerMiddleware where
  "emptyBreaker =
     \<lparr>status = tenBuckets,
      options = defaultOptions\<lparr>volumeThreshold := 3\<rparr>, warmupTimeout = None, state = Closed,
      warmUp = False, lastTimerAt = 0, resetTimeout = None\<rparr>"

definition emptyRuntime :: Runtime where
  "emptyRuntime = \<lparr>nextTimer = 1, pending = [(0, rotationTimer0)]\<rparr>"

definition warmBreaker :: CircuitBreakerMiddleware where
  "warmBreaker =
     emptyBreaker
       \<lparr>options := defaultOptions\<lparr>allowWarmUp := True, volumeThreshold := 3\<rparr>,
        warmUp := True, warmupTimeout := Some 1\<rparr>"

definition warmRuntime :: Runtime where
  "warmRuntime =
     \<lparr>nextTimer = 2,
      pending = [(1, \<lparr>callback = WarmUpExpired, dueAt = 10000, every = None\<rparr>),
                 (0, rotationTimer0)]\<rparr>"

text \<open>
  A breaker constructed at time 0, a pattern of \<open>n\<close> failing requests during the warm-up,
  one rotation per bucket, the warm-up timer served \<open>rollingCountTimeout\<close> ms after the
  construction, and the same pattern once more: the warm-up flag and the state before the
  timer, after it, and after the second run of the pattern.
\<close>

definition replayed :: "CircuitBreakerOptions \<Rightarrow> nat \<Rightarrow> (bool \<times> circuit) list" where
  "replayed opts n =
     (case CircuitBreakerMiddleware_new opts 0 newRuntime of
        Inl _ \<Rightarrow> []
      | Inr w0 \<Rightarrow>
          (case run (failing n 1 @ replicate (nat (rollingCountBuckets_O opts)) Rotate) w0 of
             Inl _ \<Rightarrow> []
           | Inr w1 \<Rightarrow>
               (case warmupTimeout (fst w1) of
                  None \<Rightarrow> []
                | Some h \<Rightarrow>
                    (case serve h (rollingCountTimeout_O opts) w1 of
                       Some (Inr w2) \<Rightarrow>
                         (case run (failing n (rollingCountTimeout_O opts + 1)) w2 of
                            Inl _ \<Rightarrow> []
                          | Inr w3 \<Rightarrow>
                              [(warmUp (fst w1), state (fst w1)),
                               (warmUp (fst w2), state (fst w2)),
                               (warmUp (fst w3), state (fst w3))])
                     | _ \<Rightarrow> []))))"

definition strictBreaker :: "error + world" where
  "strictBreaker =
     CircuitBreakerMiddleware_new
       (defaultOptions\<lparr>errorThresholdPercentage := 100, volumeThreshold := 3\<rparr>) 0 newRuntime"

section \<open>Properties of the window\<close>

subsection \<open>The aggregate, field by field\<close>

lemma foldl_accumulate_failures:
  "failures (foldl accumulate a bs) = failures a + sum_list (map failures bs)"
  by (induction bs arbitrary: a) (simp_all add: accumulate_def)

lemma foldl_accumulate_successes:
  "successes (foldl accumulate a bs) = successes a + sum_list (map successes bs)"
  by (induction bs arbitrary: a) (simp_all add: accumulate_def)

lemma foldl_accumulate_fires:
  "fires (foldl accumulate a bs) = fires a + sum_list (map fires bs)"
  by (induction bs arbitrary: a) (simp_all add: accumulate_def)

lemma foldl_accumulate_timeouts:
  "timeouts (foldl accumulate a bs) = timeouts a + sum_list (map timeouts bs)"
  by (induction bs arbitrary: a) (simp_all add: accumulate_def)

lemma foldl_accumulate_latencyTimes:
  "latencyTimes (foldl accumulate a bs) = latencyTimes a @ concat (map latencyTimes bs)"
  by (induction bs arbitrary: a) (simp_all add: accumulate_def)

lemma foldl_setPercentile_percentiles:
  "percentiles (foldl (setPercentile l) a ps) q =
     (if q \<in> set ps then calculatePercentile q l else percentiles a q)"
  by (induction ps arbitrary: a) (auto simp: setPercentile_def)

lemma foldl_setPercentile_frame:
  "failures (foldl (setPercentile l) a ps) = failures a"
  "successes (foldl (setPercentile l) a ps) = successes a"
  "fires (foldl (setPercentile l) a ps) = fires a"
  "timeouts (foldl (setPercentile l) a ps) = timeouts a"
  "latencyTimes (foldl (setPercentile l) a ps) = latencyTimes a"
  "latencyMean (foldl (setPercentile l) a ps) = latencyMean a"
  by (induction ps arbitrary: a; simp add: setPercentile_def)+

lemma foldl_zeroPercentile_frame:
  "failures (foldl zeroPercentile a ps) = failures a"
  "successes (foldl zeroPercentile a ps) = successes a"
  "fires (foldl zeroPercentile a ps) = fires a"
  "timeouts (foldl zeroPercentile a ps) = timeouts a"
  "latencyTimes (foldl zeroPercentile a ps) = latencyTimes a"
  "latencyMean (foldl zeroPercentile a ps) = latencyMean a"
  by (induction ps arbitrary: a; simp add: zeroPercentile_def)+

lemma stats_Inr_iff: "(\<exists>sn. stats s = Inr sn) \<longleftrightarrow> buckets s \<noteq> []"
  by (cases "buckets s") (simp_all add: stats_def Let_def)

lemma stats_Inl_iff: "stats s = Inl TypeError \<longleftrightarrow> buckets s = []"
  by (cases "buckets s") (simp_all add: stats_def Let_def)

lemma stats_failures:
  "stats s = Inr sn \<Longrightarrow> failures sn = sum_list (map failures (buckets s))"
  by (auto simp: stats_def Let_def foldl_setPercentile_frame foldl_zeroPercentile_frame
        foldl_accumulate_failures asStats_def createBucket_def accumulate_def
      split: list.splits if_splits)

lemma stats_successes:
  "stats s = Inr sn \<Longrightarrow> successes sn = sum_list (map successes (buckets s))"
  by (auto simp: stats_def Let_def foldl_setPercentile_frame foldl_zeroPercentile_frame
        foldl_accumulate_successes asStats_def createBucket_def accumulate_def
      split: list.splits if_splits)

lemma stats_fires:
  "stats s = Inr sn \<Longrightarrow> fires sn = sum_list (map fires (buckets s))"
  by (auto simp: stats_def Let_def foldl_setPercentile_frame foldl_zeroPercentile_frame
        foldl_accumulate_fires asStats_def createBucket_def accumulate_def
      split: list.splits if_splits)

lemma stats_timeouts:
  "stats s = Inr sn \<Longrightarrow> timeouts sn = sum_list (map timeouts (buckets s))"
  by (auto simp: stats_def Let_def foldl_setPercentile_frame foldl_zeroPercentile_frame
        foldl_accumulate_timeouts asStats_def createBucket_def accumulate_def
      split: list.splits if_splits)

lemma stats_latencyTimes: "stats s = Inr sn \<Longrightarrow> latencyTimes sn = window s"
  by (auto simp: stats_def Let_def foldl_setPercentile_frame foldl_zeroPercentile_frame
        window_def foldl_accumulate_latencyTimes asStats_def createBucket_def accumulate_def
      split: list.splits if_splits)

lemma stats_percentiles_enabled:
  "stats s = Inr sn \<Longrightarrow> rollingPercentilesEnabled_S s \<Longrightarrow> p \<in> set (percentiles_S s) \<Longrightarrow>
   percentiles sn p = calculatePercentile p (window s)"
  by (auto simp: stats_def Let_def foldl_setPercentile_percentiles window_def
        foldl_accumulate_latencyTimes asStats_def createBucket_def accumulate_def
      split: list.splits if_splits)

subsection \<open>Nearest-rank percentiles\<close>

lemma ceiling_rank_bounds:
  fixes p :: rat
  assumes "0 < p" "p < 1" "0 < n"
  shows "1 \<le> \<lceil>p * of_nat n\<rceil>" "\<lceil>p * of_nat n\<rceil> \<le> int n"
proof -
  have "0 < p * of_nat n" using assms by simp
  then show "1 \<le> \<lceil>p * of_nat n\<rceil>" by (simp add: ceiling_less_iff)
  have "p * of_nat n \<le> of_nat n" using assms by (simp add: mult_le_cancel_right1)
  then show "\<lceil>p * of_nat n\<rceil> \<le> int n" by (simp add: ceiling_le_iff)
qed

lemma calculatePercentile_rank:
  assumes "lts \<noteq> []"
  shows "calculatePercentile p lts =
           Some (if p \<le> 0 then lts ! 0
                 else if 1 \<le> p then lts ! (length lts - 1)
                 else lts ! nat (\<lceil>p * of_nat (length lts)\<rceil> - 1))"
proof -
  have n: "0 < length lts" using assms by simp
  show ?thesis
  proof (cases "0 < p \<and> p < 1")
    case True
    then show ?thesis using ceiling_rank_bounds[of p "length lts"] n
      by (simp add: calculatePercentile_def js_nth_def)
  next
    case False
    have e: "nat (int (length lts) - 1) = length lts - Suc 0"
      by (simp add: nat_diff_distrib')
    from False show ?thesis using n
      by (auto simp: calculatePercentile_def js_nth_def e)
  qed
qed

lemma sorted_nth0_Min: "sorted xs \<Longrightarrow> xs \<noteq> [] \<Longrightarrow> xs ! 0 = Min (set xs)"
  by (cases xs) (auto intro!: Min_eqI[symmetric])

lemma sorted_last_Max:
  assumes "sorted xs" "xs \<noteq> []"
  shows "xs ! (length xs - 1) = Max (set xs)"
proof (rule Max_eqI[symmetric])
  show "finite (set xs)" by simp
  show "xs ! (length xs - 1) \<in> set xs" using assms by simp
  fix y assume "y \<in> set xs"
  then obtain i where "i < length xs" "xs ! i = y" by (auto simp: in_set_conv_nth)
  then show "y \<le> xs ! (length xs - 1)"
    using sorted_nth_mono[OF assms(1), of i "length xs - 1"] by auto
qed

lemma five_samples_percentiles:
  "(case bind_r (bind_r (constructed testOptions) (calls fiveSamples)) stats of
      Inl _ \<Rightarrow> False
    | Inr sn \<Rightarrow>
        latencyTimes sn = [50, 100, 150, 200, 250] \<and>
        map (percentiles sn) [1/4, 1/2, 3/4, 95/100] = [Some 100, Some 150, Some 200, Some 250])"
  by code_simp

lemma single_sample_percentiles:
  "(case bind_r (bind_r (constructed testOptions) (calls [Increment Successes (Some 300)]))
          stats of
      Inl _ \<Rightarrow> False
    | Inr sn \<Rightarrow> latencyTimes sn = [300] \<and> map (percentiles sn) [0, 1] = [Some 300, Some 300])"
  by code_simp

text \<open>
  C6. With percentiles enabled, the snapshot holds the ascending-sorted samples of the
  whole window, and for a window with at least one sample every configured percentile
  \<open>p\<close> is the sample at index \<open>ceil(p * n) - 1\<close>, the minimum for \<open>p \<le> 0\<close> and the maximum
  for \<open>p \<ge> 1\<close>; the same holds of \<open>calculatePercentile\<close> at every rank \<open>q\<close>. For the
  samples 50, 100, 150, 200, 250 of the test suite the percentiles 0.25, 0.5, 0.75 and 0.95
  are 100, 150, 200 and 250, and for the single sample 300 the percentiles 0 and 1 are
  both 300. The product \<open>p * n\<close> is exact here; for the nine configured ranks the
  double-precision product has the same ceiling.
\<close>

theorem nearest_rank_percentiles:
  assumes "stats s = Inr sn"
    and "rollingPercentilesEnabled_S s"
    and "p \<in> set (percentiles_S s)"
    and "window s \<noteq> []"
  shows "latencyTimes sn = window s \<and> sorted (window s) \<and>
         percentiles sn p =
           Some (if p \<le> 0 then Min (set (window s))
                 else if 1 \<le> p then Max (set (window s))
                 else window s ! nat (\<lceil>p * of_nat (length (window s))\<rceil> - 1)) \<and>
         (\<forall>q. calculatePercentile q (window s) =
           Some (if q \<le> 0 then Min (set (window s))
                 else if 1 \<le> q then Max (set (window s))
                 else window s ! nat (\<lceil>q * of_nat (length (window s))\<rceil> - 1))) \<and>
         (case bind_r (bind_r (constructed testOptions) (calls fiveSamples)) stats of
            Inl _ \<Rightarrow> False
          | Inr sn \<Rightarrow>
              latencyTimes sn = [50, 100, 150, 200, 250] \<and>
              map (percentiles sn) [1/4, 1/2, 3/4, 95/100] =
                [Some 100, Some 150, Some 200, Some 250]) \<and>
         (case bind_r (bind_r (constructed testOptions) (calls [Increment Successes (Some 300)]))
                 stats of
            Inl _ \<Rightarrow> False
          | Inr sn \<Rightarrow>
              latencyTimes sn = [300] \<and> map (percentiles sn) [0, 1] = [Some 300, Some 300])"
proof -
  have srt: "sorted (window s)" by (simp add: window_def)
  have rank: "calculatePercentile q (window s) =
           Some (if q \<le> 0 then Min (set (window s))
                 else if 1 \<le> q then Max (set (window s))
                 else window s ! nat (\<lceil>q * of_nat (length (window s))\<rceil> - 1))" for q
    using calculatePercentile_rank[OF assms(4), of q]
      sorted_nth0_Min[OF srt assms(4)] sorted_last_Max[OF srt assms(4)]
    by simp
  have "percentiles sn p = calculatePercentile p (window s)"
    using assms(1-3) by (rule stats_percentiles_enabled)
  then show ?thesis
    using rank srt stats_latencyTimes[OF assms(1)] five_samples_percentiles
      single_sample_percentiles
    by simp
qed

theorem nearest_rank_percentiles_witness:
  "\<exists>sn. stats sampleStatus = Inr sn \<and> rollingPercentilesEnabled_S sampleStatus \<and>
        9/10 \<in> set (percentiles_S sampleStatus) \<and> window sampleStatus \<noteq> [] \<and>
        latencyTimes sn = [50, 100, 150, 200, 250] \<and> percentiles sn (9/10) = Some 250"
proof -
  obtain sn where sn: "stats sampleStatus = Inr sn"
    using stats_Inr_iff[of sampleStatus] by (auto simp: sampleStatus_def)
  have en: "rollingPercentilesEnabled_S sampleStatus" by (simp add: sampleStatus_def)
  have mem: "9/10 \<in> set (percentiles_S sampleStatus)"
    by (simp add: sampleStatus_def defaultPercentiles_def)
  have win: "window sampleStatus = [50, 100, 150, 200, 250]"
    by (simp add: window_def sampleStatus_def createBucket_def)
  have ne: "window sampleStatus \<noteq> []" by (simp add: win)
  have idx: "\<lceil>(9/2 :: rat)\<rceil> = 5" by (simp add: ceiling_eq_iff)
  from nearest_rank_percentiles[OF sn en mem ne]
  have "latencyTimes sn = [50, 100, 150, 200, 250] \<and> percentiles sn (9/10) = Some 250"
    by (simp add: win idx)
  then show ?thesis using sn en mem ne by blast
qed

subsection \<open>Rotation\<close>

lemma fire_RotateBuckets:
  assumes "map_of (pending rt) h = Some t" and "callback t = RotateBuckets"
  shows "\<exists>rt'. fire h now (cb, rt) = Some (Inr (cb\<lparr>status := rotation (status cb)\<rparr>, rt'))"
  using assms by (simp add: fire_def Let_def)

text \<open>
  C9, as the claim states it, fails. A window constructed with a bucket count of zero has
  no bucket, and a rotation of it removes nothing and inserts a bucket: the length of the
  bucket sequence changes from 0 to 1.
\<close>

theorem rotation_grows_empty_window:
  "bucketCount (constructed (testOptions\<lparr>rollingCountBuckets := 0\<rparr>)) = Some 0 \<and>
   bucketCount (bind_r (constructed (testOptions\<lparr>rollingCountBuckets := 0\<rparr>))
                  (calls [Rotation])) = Some 1"
  by code_simp

text \<open>
  C9, amended. Every rotation step, also as the callback of the interval timer, puts an
  empty bucket at the head and keeps all buckets but the last one in their order behind
  it: whatever was recorded before the rotation, the counters of the new head are zero, it
  holds no sample and its open flag is not set. When the window has a bucket, the
  rotation keeps the number of buckets and removes exactly the last one. When the window
  has no bucket (it was constructed with a bucket count below 1), the rotation removes
  nothing and the window has one bucket afterwards.
\<close>

theorem rotation_replaces_oldest_bucket:
  "hd (buckets (rotation s)) = createBucket \<and>
   failures (hd (buckets (rotation s))) = 0 \<and>
   successes (hd (buckets (rotation s))) = 0 \<and>
   fires (hd (buckets (rotation s))) = 0 \<and>
   timeouts (hd (buckets (rotation s))) = 0 \<and>
   latencyTimes (hd (buckets (rotation s))) = [] \<and>
   \<not> isCircuitBreakerOpen (hd (buckets (rotation s))) \<and>
   tl (buckets (rotation s)) = butlast (buckets s) \<and>
   (buckets s \<noteq> [] \<longrightarrow>
      length (buckets (rotation s)) = length (buckets s) \<and>
      butlast (buckets s) @ [last (buckets s)] = buckets s) \<and>
   (buckets s = [] \<longrightarrow> buckets (rotation s) = [createBucket]) \<and>
   (\<forall>h t now cb rt.
      map_of (pending rt) h = Some t \<and> callback t = RotateBuckets \<and> status cb = s \<longrightarrow>
      (\<exists>rt'. fire h now (cb, rt) = Some (Inr (cb\<lparr>status := rotation s\<rparr>, rt'))))"
  using fire_RotateBuckets by (auto simp: rotation_def createBucket_def)

theorem rotation_replaces_oldest_bucket_witness:
  "buckets sampleStatus \<noteq> [] \<and>
   length (buckets (rotation sampleStatus)) = 3 \<and>
   tl (buckets (rotation sampleStatus)) =
     [createBucket\<lparr>successes := 2, fires := 2, latencyTimes := [250, 50]\<rparr>,
      createBucket\<lparr>successes := 3, fires := 3, latencyTimes := [150, 100, 200]\<rparr>] \<and>
   successes (hd (buckets (rotation sampleStatus))) = 0 \<and>
   latencyTimes (hd (buckets (rotation sampleStatus))) = [] \<and>
   buckets (sampleStatus\<lparr>buckets := []\<rparr>) = [] \<and>
   buckets (rotation (sampleStatus\<lparr>buckets := []\<rparr>)) = [createBucket] \<and>
   map_of (pending sampleRuntime) 0 = Some rotationTimer0 \<and>
   callback rotationTimer0 = RotateBuckets \<and>
   (\<exists>rt'. fire 0 1000 (sampleBreaker, sampleRuntime) =
            Some (Inr (sampleBreaker\<lparr>status := rotation sampleStatus\<rparr>, rt')))"
proof -
  have ne: "buckets sampleStatus \<noteq> []" by (simp add: sampleStatus_def)
  have e: "buckets (sampleStatus\<lparr>buckets := []\<rparr>) = []" by simp
  have t: "map_of (pending sampleRuntime) 0 = Some rotationTimer0"
    and c: "callback rotationTimer0 = RotateBuckets"
    and st: "status sampleBreaker = sampleStatus"
    by (simp_all add: sampleRuntime_def rotationTimer0_def sampleBreaker_def)
  note r = rotation_replaces_oldest_bucket[of sampleStatus]
  note r0 = rotation_replaces_oldest_bucket[of "sampleStatus\<lparr>buckets := []\<rparr>"]
  from r t c st
  have "\<exists>rt'. fire 0 1000 (sampleBreaker, sampleRuntime) =
            Some (Inr (sampleBreaker\<lparr>status := rotation sampleStatus\<rparr>, rt'))"
    by blast
  moreover from r ne have "length (buckets (rotation sampleStatus)) = length (buckets sampleStatus)"
    and "tl (buckets (rotation sampleStatus)) = butlast (buckets sampleStatus)"
    and "successes (hd (buckets (rotation sampleStatus))) = 0"
    and "latencyTimes (hd (buckets (rotation sampleStatus))) = []"
    by blast+
  then have "length (buckets (rotation sampleStatus)) = 3 \<and>
      tl (buckets (rotation sampleStatus)) =
        [createBucket\<lparr>successes := 2, fires := 2, latencyTimes := [250, 50]\<rparr>,
         createBucket\<lparr>successes := 3, fires := 3, latencyTimes := [150, 100, 200]\<rparr>] \<and>
      successes (hd (buckets (rotation sampleStatus))) = 0 \<and>
      latencyTimes (hd (buckets (rotation sampleStatus))) = []"
    by (simp add: sampleStatus_def)
  moreover from r0 e have "buckets (rotation (sampleStatus\<lparr>buckets := []\<rparr>)) = [createBucket]"
    by blast
  ultimately show ?thesis using ne e t c by blast
qed

section \<open>Properties of the circuit breaker\<close>

subsection \<open>The effect of each call\<close>


lemma stats_aggregate:
  assumes "stats s = Inr sn"
  shows "failures sn = aggregate failures s" "successes sn = aggregate successes s"
    "fires sn = aggregate fires s" "timeouts sn = aggregate timeouts s"
  using assms stats_failures stats_successes stats_fires stats_timeouts
  by (simp_all add: aggregate_def)

lemma stats_obtain:
  assumes "buckets s \<noteq> []"
  obtains sn where "stats s = Inr sn"
  using assms stats_Inr_iff by blast

lemma increment_Inl_iff: "increment p l s = Inl TypeError \<longleftrightarrow> buckets s = []"
  by (cases "buckets s") (simp_all add: increment_def)

lemma push_counters:
  "failures (push l b) = failures b" "successes (push l b) = successes b"
  "fires (push l b) = fires b" "timeouts (push l b) = timeouts b"
  "isCircuitBreakerOpen (push l b) = isCircuitBreakerOpen b"
  by (cases l; simp add: push_def)+

lemma bump_counters:
  "failures (bump p b) = failures b + (if p = Failures then 1 else 0)"
  "successes (bump p b) = successes b + (if p = Successes then 1 else 0)"
  "fires (bump p b) = fires b + (if p = Fires then 1 else 0)"
  "timeouts (bump p b) = timeouts b + (if p = Timeouts then 1 else 0)"
  "isCircuitBreakerOpen (bump p b) = isCircuitBreakerOpen b"
  "latencyTimes (bump p b) = latencyTimes b"
  by (cases p; simp add: bump_def)+

lemma increment_effect:
  assumes "increment p l s = Inr s'"
  shows "aggregate failures s' = aggregate failures s + (if p = Failures then 1 else 0)"
    and "aggregate successes s' = aggregate successes s + (if p = Successes then 1 else 0)"
    and "aggregate fires s' = aggregate fires s + (if p = Fires then 1 else 0)"
    and "aggregate timeouts s' = aggregate timeouts s + (if p = Timeouts then 1 else 0)"
    and "length (buckets s') = length (buckets s)"
    and "buckets s' \<noteq> []"
    and "rotationTimer s' = rotationTimer s"
    and "percentiles_S s' = percentiles_S s"
    and "rollingPercentilesEnabled_S s' = rollingPercentilesEnabled_S s"
  using assms
  by (cases "buckets s"; auto simp: increment_def aggregate_def push_counters bump_counters)+

lemma increment_obtain:
  assumes "buckets s \<noteq> []"
  obtains s' where "increment p l s = Inr s'"
  using assms by (cases "buckets s") (simp_all add: increment_def)

lemma open_S_effect:
  assumes "open_S s = Inr s'"
  shows "aggregate failures s' = aggregate failures s" "aggregate successes s' = aggregate successes s"
    "aggregate fires s' = aggregate fires s" "aggregate timeouts s' = aggregate timeouts s"
    "length (buckets s') = length (buckets s)" "buckets s' \<noteq> []"
    "rotationTimer s' = rotationTimer s"
  using assms by (cases "buckets s"; auto simp: open_S_def aggregate_def)+

lemma close_S_effect:
  assumes "close_S s = Inr s'"
  shows "aggregate failures s' = aggregate failures s" "aggregate successes s' = aggregate successes s"
    "aggregate fires s' = aggregate fires s" "aggregate timeouts s' = aggregate timeouts s"
    "length (buckets s') = length (buckets s)" "buckets s' \<noteq> []"
    "rotationTimer s' = rotationTimer s"
  using assms by (cases "buckets s"; auto simp: close_S_def aggregate_def)+

lemma open_S_obtain:
  assumes "buckets s \<noteq> []"
  obtains s' where "open_S s = Inr s'"
  using assms by (cases "buckets s") (simp_all add: open_S_def)

lemma close_S_obtain:
  assumes "buckets s \<noteq> []"
  obtains s' where "close_S s = Inr s'"
  using assms by (cases "buckets s") (simp_all add: close_S_def)


lemma follows_trans:
  "follows w w' a b c d \<Longrightarrow> follows w' w'' a' b' c' d' \<Longrightarrow>
   follows w w'' (a + a') (b + b') (c + c') (d + d')"
  by (simp add: follows_def)

lemma open_CB_Inr:
  assumes "open_CB now w = Inr w'"
  shows "state (fst w') = Open \<and> follows w w' 0 0 0 0"
proof (cases "state (fst w) = Open")
  case True
  with assms have "w' = w" by (cases w) (simp add: open_CB_def)
  then show ?thesis using True by (simp add: follows_def)
next
  case False
  obtain cb rt where w: "w = (cb, rt)" by (cases w)
  from assms False obtain st where st: "open_S (status cb) = Inr st"
    and w': "w' = startTimer now (cb\<lparr>state := Open, status := st\<rparr>, rt)"
    by (auto simp: open_CB_def w bind_r_def split: sum.splits)
  show ?thesis using open_S_effect[OF st]
    by (simp add: w w' startTimer_def setTimeout_def setInterval_def register_def follows_def)
qed

lemma open_CB_total:
  assumes "buckets (status (fst w)) \<noteq> []"
  shows "\<exists>w'. open_CB now w = Inr w'"
proof -
  obtain cb rt where w: "w = (cb, rt)" by (cases w)
  obtain st where "open_S (status cb) = Inr st"
    using assms open_S_obtain[of "status cb"] by (auto simp: w)
  then show ?thesis by (simp add: open_CB_def w bind_r_def)
qed

lemma close_CB_Inr:
  assumes "close_CB w = Inr w'"
  shows "state (fst w') = Closed \<and> follows w w' 0 0 0 0"
proof (cases "state (fst w) = Closed")
  case True
  with assms have "w' = w" by (cases w) (simp add: close_CB_def)
  then show ?thesis using True by (simp add: follows_def)
next
  case False
  obtain cb rt where w: "w = (cb, rt)" by (cases w)
  from assms False obtain st where st: "close_S (status cb) = Inr st"
    and w': "w' = (cb\<lparr>state := Closed, status := st\<rparr>, clearIfSet (resetTimeout cb) rt)"
    by (auto simp: close_CB_def w bind_r_def split: sum.splits)
  show ?thesis using close_S_effect[OF st]
    by (simp add: w w' follows_def)
qed

lemma close_CB_total:
  assumes "buckets (status (fst w)) \<noteq> []"
  shows "\<exists>w'. close_CB w = Inr w'"
proof -
  obtain cb rt where w: "w = (cb, rt)" by (cases w)
  obtain st where "close_S (status cb) = Inr st"
    using assms close_S_obtain[of "status cb"] by (auto simp: w)
  then show ?thesis by (simp add: close_CB_def w bind_r_def)
qed

lemma fail_Inr:
  assumes "fail now w = Inr w'"
  shows "state (fst w') = (if trips (fst w) then Open else state (fst w)) \<and> follows w w' 1 0 0 0"
proof -
  obtain cb rt where w: "w = (cb, rt)" by (cases w)
  from assms obtain st where st: "increment Failures None (status cb) = Inr st"
    by (auto simp: fail_def w bind_r_def split: sum.splits)
  note ie = increment_effect[OF st]
  let ?cb1 = "cb\<lparr>status := st\<rparr>"
  have f1: "follows w (?cb1, rt) 1 0 0 0" using ie by (simp add: follows_def w)
  obtain sn where sn: "stats st = Inr sn" using ie(6) stats_obtain by blast
  note tt = stats_aggregate[OF sn]
  have unf: "fail now w =
      (if warmUp cb then Inr (?cb1, rt)
       else if int (fires sn) < volumeThreshold (options cb) \<and> state cb \<noteq> HalfOpen
       then Inr (?cb1, rt)
       else if js_greater (errorRate (failures sn) (fires sn))
                 (errorThresholdPercentage (options cb)) \<or> state cb = HalfOpen
       then open_CB now (?cb1, rt) else Inr (?cb1, rt))"
    by (simp add: fail_def w bind_r_def st sn Let_def)
  show ?thesis
  proof (cases "trips cb")
    case True
    then have o: "open_CB now (?cb1, rt) = Inr w'"
      using assms unfolding unf by (auto simp: trips_def tt ie split: if_splits)
    from open_CB_Inr[OF o] follows_trans[OF f1, of w' 0 0 0 0] True
    show ?thesis by (simp add: w)
  next
    case False
    then have "w' = (?cb1, rt)"
      using assms unfolding unf by (auto simp: trips_def tt ie split: if_splits)
    then show ?thesis using False f1 by (simp add: w)
  qed
qed

lemma fail_total:
  assumes "buckets (status (fst w)) \<noteq> []"
  shows "\<exists>w'. fail now w = Inr w'"
proof -
  obtain cb rt where w: "w = (cb, rt)" by (cases w)
  obtain st where st: "increment Failures None (status cb) = Inr st"
    using assms increment_obtain w by (metis fst_conv)
  note ie = increment_effect[OF st]
  obtain sn where sn: "stats st = Inr sn" using ie(6) stats_obtain by blast
  have "\<exists>w'. open_CB now (cb\<lparr>status := st\<rparr>, rt) = Inr w'"
    using open_CB_total[of "(cb\<lparr>status := st\<rparr>, rt)"] ie(6) by simp
  then show ?thesis
    by (auto simp: fail_def w bind_r_def st sn Let_def)
qed

lemma success_Inr:
  assumes "success w = Inr w'"
  shows "state (fst w') = (if state (fst w) = HalfOpen then Closed else state (fst w)) \<and>
         follows w w' 0 1 0 0"
proof -
  obtain cb rt where w: "w = (cb, rt)" by (cases w)
  from assms obtain st where st: "increment Successes None (status cb) = Inr st"
    by (auto simp: success_def w bind_r_def split: sum.splits)
  note ie = increment_effect[OF st]
  let ?cb1 = "cb\<lparr>status := st\<rparr>"
  have f1: "follows w (?cb1, rt) 0 1 0 0" using ie by (simp add: follows_def w)
  show ?thesis
  proof (cases "state cb = HalfOpen")
    case True
    with assms st have c: "close_CB (?cb1, rt) = Inr w'"
      by (simp add: success_def w bind_r_def)
    from close_CB_Inr[OF c] follows_trans[OF f1, of w' 0 0 0 0] True
    show ?thesis by (simp add: w)
  next
    case False
    with assms st have "w' = (?cb1, rt)" by (simp add: success_def w bind_r_def)
    then show ?thesis using False f1 by (simp add: w)
  qed
qed

lemma success_total:
  assumes "buckets (status (fst w)) \<noteq> []"
  shows "\<exists>w'. success w = Inr w'"
proof -
  obtain cb rt where w: "w = (cb, rt)" by (cases w)
  obtain st where st: "increment Successes None (status cb) = Inr st"
    using assms increment_obtain w by (metis fst_conv)
  note ie = increment_effect[OF st]
  have "\<exists>w'. close_CB (cb\<lparr>status := st\<rparr>, rt) = Inr w'"
    using close_CB_total[of "(cb\<lparr>status := st\<rparr>, rt)"] ie(6) by simp
  then show ?thesis
    by (auto simp: success_def w bind_r_def st Let_def)
qed

subsection \<open>Counters and handlers\<close>

lemma counts_Some_iff:
  "counts w = Some (f, s, i, t) \<longleftrightarrow>
     buckets (status (fst w)) \<noteq> [] \<and> aggregate failures (status (fst w)) = f \<and>
     aggregate successes (status (fst w)) = s \<and> aggregate fires (status (fst w)) = i \<and>
     aggregate timeouts (status (fst w)) = t"
proof (cases "stats (status (fst w))")
  case (Inl e)
  then show ?thesis using stats_Inr_iff[of "status (fst w)"] by (simp add: counts_def)
next
  case (Inr sn)
  then show ?thesis using stats_Inr_iff[of "status (fst w)"] stats_aggregate[OF Inr]
    by (auto simp: counts_def)
qed

lemma follows_nonempty:
  "follows w w' a b c d \<Longrightarrow> buckets (status (fst w)) \<noteq> [] \<Longrightarrow> buckets (status (fst w')) \<noteq> []"
  by (auto simp: follows_def)

lemma counts_follows:
  assumes "follows w w' a b c d" and "counts w = Some (f, s, i, t)"
  shows "counts w' = Some (f + a, s + b, i + c, t + d)"
  using assms unfolding counts_Some_iff by (auto simp: follows_def)

lemma requestTimedOut_Inr:
  assumes "requestTimedOut started now w = Inr w'"
  shows "state (fst w') = state (fst w) \<or> state (fst w') = Open" and "follows w w' 1 0 0 1"
proof -
  obtain cb rt where w: "w = (cb, rt)" by (cases w)
  from assms obtain st where st: "increment Timeouts (Some (now - started)) (status cb) = Inr st"
    and f: "fail now (cb\<lparr>status := st\<rparr>, rt) = Inr w'"
    by (auto simp: requestTimedOut_def w bind_r_def split: sum.splits)
  note ie = increment_effect[OF st]
  have f1: "follows w (cb\<lparr>status := st\<rparr>, rt) 0 0 0 1" using ie by (simp add: follows_def w)
  from fail_Inr[OF f] show "state (fst w') = state (fst w) \<or> state (fst w') = Open"
    by (auto simp: w split: if_splits)
  from fail_Inr[OF f] follows_trans[OF f1, of w' 1 0 0 0]
  show "follows w w' 1 0 0 1" by simp
qed

lemma requestTimedOut_total:
  assumes "buckets (status (fst w)) \<noteq> []"
  shows "\<exists>w'. requestTimedOut started now w = Inr w'"
proof -
  obtain cb rt where w: "w = (cb, rt)" by (cases w)
  obtain st where st: "increment Timeouts (Some (now - started)) (status cb) = Inr st"
    using assms increment_obtain[of "status cb"] by (auto simp: w)
  note ie = increment_effect[OF st]
  have "\<exists>w'. fail now (cb\<lparr>status := st\<rparr>, rt) = Inr w'"
    using fail_total[of "(cb\<lparr>status := st\<rparr>, rt)"] ie(6) by simp
  then show ?thesis by (simp add: requestTimedOut_def w bind_r_def st)
qed

lemma onClose_Inr:
  assumes "onClose iv now w = Inr w'"
  shows "follows w w' 1 0 0 0"
proof -
  obtain cb rt where w: "w = (cb, rt)" by (cases w)
  from assms have f: "fail now (cb, clearIfSet (timeoutId iv) rt) = Inr w'"
    by (simp add: onClose_def w)
  from fail_Inr[OF f] show ?thesis by (simp add: w follows_def)
qed

lemma onClose_total:
  assumes "buckets (status (fst w)) \<noteq> []"
  shows "\<exists>w'. onClose iv now w = Inr w'"
proof -
  obtain cb rt where w: "w = (cb, rt)" by (cases w)
  show ?thesis using fail_total[of "(cb, clearIfSet (timeoutId iv) rt)" now] assms
    by (simp add: onClose_def w)
qed

lemma onFinish_Inr:
  assumes "onFinish iv res now w = Inr w'"
  shows "if isError (options (fst w)) res then follows w w' 1 0 0 0 else follows w w' 0 1 0 0"
proof -
  obtain cb rt where w: "w = (cb, rt)" by (cases w)
  show ?thesis
  proof (cases "isError (options cb) res")
    case True
    with assms have f: "fail now (cb, clearIfSet (timeoutId iv) rt) = Inr w'"
      by (simp add: onFinish_def w Let_def)
    from fail_Inr[OF f] True show ?thesis by (simp add: w follows_def)
  next
    case False
    with assms have f: "success (cb, clearIfSet (timeoutId iv) rt) = Inr w'"
      by (simp add: onFinish_def w Let_def)
    from success_Inr[OF f] False show ?thesis by (simp add: w follows_def)
  qed
qed

lemma onFinish_total:
  assumes "buckets (status (fst w)) \<noteq> []"
  shows "\<exists>w'. onFinish iv res now w = Inr w'"
proof -
  obtain cb rt where w: "w = (cb, rt)" by (cases w)
  show ?thesis
    using fail_total[of "(cb, clearIfSet (timeoutId iv) rt)" now]
      success_total[of "(cb, clearIfSet (timeoutId iv) rt)"] assms
    by (simp add: onFinish_def w Let_def)
qed


lemma middleware_Admitted:
  assumes "middleware now w = Inr (w1, Admitted iv)"
  shows "follows w w1 0 0 1 0" and "startedAt iv = now"
    and "timeout_O (options (fst w)) = None \<Longrightarrow> timeoutId iv = None \<and> snd w1 = snd w"
    and "timeout_O (options (fst w)) \<noteq> None \<Longrightarrow>
           timeoutId iv = Some (nextTimer (snd w)) \<and>
           (\<exists>t. map_of (pending (snd w1)) (nextTimer (snd w)) = Some t \<and>
                callback t = RequestTimedOut now \<and> every t = None)"
proof -
  obtain cb rt where w: "w = (cb, rt)" by (cases w)
  from assms obtain st where st: "increment Fires None (status cb) = Inr st"
    by (auto simp: middleware_def w bind_r_def split: sum.splits if_splits)
  note ie = increment_effect[OF st]
  have fo: "follows w (cb\<lparr>status := st\<rparr>, r) 0 0 1 0" for r
    using ie by (simp add: follows_def w)
  show "follows w w1 0 0 1 0"
    using assms st fo
    by (auto simp: middleware_def w bind_r_def setTimeout_def setInterval_def register_def Let_def follows_def
        split: if_splits option.splits)
  show "startedAt iv = now"
    using assms st
    by (auto simp: middleware_def w bind_r_def setTimeout_def setInterval_def register_def Let_def
        split: if_splits option.splits)
  show "timeoutId iv = None \<and> snd w1 = snd w" if "timeout_O (options (fst w)) = None"
    using assms st that
    by (auto simp: middleware_def w bind_r_def setTimeout_def setInterval_def register_def Let_def
        split: if_splits option.splits)
  show "timeoutId iv = Some (nextTimer (snd w)) \<and>
           (\<exists>t. map_of (pending (snd w1)) (nextTimer (snd w)) = Some t \<and>
                callback t = RequestTimedOut now \<and> every t = None)"
    if "timeout_O (options (fst w)) \<noteq> None"
    using assms st that
    by (auto simp: middleware_def w bind_r_def setTimeout_def setInterval_def register_def Let_def
        split: if_splits option.splits)
qed

lemma middleware_admits:
  assumes "buckets (status (fst w)) \<noteq> []" and "enabled (options (fst w))"
    and "state (fst w) \<noteq> Open \<or> logOnly (options (fst w))"
  shows "\<exists>w1 iv. middleware now w = Inr (w1, Admitted iv)"
proof -
  obtain cb rt where w: "w = (cb, rt)" by (cases w)
  obtain st where st: "increment Fires None (status cb) = Inr st"
    using assms(1) increment_obtain[of "status cb"] by (auto simp: w)
  show ?thesis using assms(2,3) st
    by (auto simp: middleware_def w bind_r_def setTimeout_def setInterval_def register_def Let_def split: option.splits)
qed

lemma sample_counts: "counts (sampleBreaker, sampleRuntime) = Some (0, 5, 5, 0)"
  by code_simp

lemma sample_nonempty: "buckets (status sampleBreaker) \<noteq> []"
  by (simp add: sampleBreaker_def sampleStatus_def)

subsection \<open>A completion signal after the deadline\<close>

text \<open>
  C1, as the claim states it, fails. The request is admitted (one fire), its deadline timer
  fires (one timeout and one failure), and the signal that arrives afterwards is counted
  again: the \<open>close\<close> handler adds a second failure, and the \<open>finish\<close> handler of a
  response with status 200 adds a success. The lists give failures, successes, fires and
  timeouts after the admission, after the timer and after the late signal.
\<close>

theorem late_signal_counted_again:
  "lateSignal onClose = [Some (0, 0, 1, 0), Some (1, 0, 1, 1), Some (2, 0, 1, 1)] \<and>
   lateSignal (onFinishWith \<lparr>statusCode = 200\<rparr>) =
     [Some (0, 0, 1, 0), Some (1, 0, 1, 1), Some (1, 1, 1, 1)]"
  by code_simp

lemma late_signal_after_deadline:
  assumes "counts (cb, rt) = Some (f, s, i, t)"
    and "timeoutId iv = Some h"
    and "map_of (pending rt) h = Some tm"
    and "callback tm = RequestTimedOut (startedAt iv)" and "every tm = None"
  shows "\<exists>w1. fire h t1 (cb, rt) = Some (Inr w1) \<and>
           counts w1 = Some (f + 1, s, i, t + 1) \<and>
           (\<exists>w2. onClose iv t2 w1 = Inr w2 \<and> counts w2 = Some (f + 2, s, i, t + 1)) \<and>
           (\<forall>res. \<exists>w2. onFinish iv res t2 w1 = Inr w2 \<and>
              counts w2 = (if isError (options cb) res
                           then Some (f + 2, s, i, t + 1) else Some (f + 1, s + 1, i, t + 1)))"
proof -
  have ne: "buckets (status cb) \<noteq> []" using assms(1) by (simp add: counts_Some_iff)
  obtain w1 where w1: "requestTimedOut (startedAt iv) t1 (cb, clearTimer h rt) = Inr w1"
    using requestTimedOut_total[of "(cb, clearTimer h rt)" "startedAt iv" t1] ne by auto
  have fire: "fire h t1 (cb, rt) = Some (Inr w1)"
    using assms(3-5) w1 by (simp add: fire_def)
  have fo1: "follows (cb, rt) w1 1 0 0 1"
    using requestTimedOut_Inr(2)[OF w1] by (simp add: follows_def)
  have c1: "counts w1 = Some (f + 1, s, i, t + 1)"
    using counts_follows[OF fo1 assms(1)] by simp
  have ne1: "buckets (status (fst w1)) \<noteq> []" using follows_nonempty[OF fo1] ne by simp
  have o1: "options (fst w1) = options cb" using fo1 by (simp add: follows_def)
  obtain w2 where w2: "onClose iv t2 w1 = Inr w2" using onClose_total[OF ne1] by blast
  have cl: "counts w2 = Some (f + 2, s, i, t + 1)"
    using counts_follows[OF onClose_Inr[OF w2] c1] by simp
  have fin: "\<exists>w2. onFinish iv res t2 w1 = Inr w2 \<and>
              counts w2 = (if isError (options cb) res
                           then Some (f + 2, s, i, t + 1) else Some (f + 1, s + 1, i, t + 1))" for res
  proof -
    obtain w3 where w3: "onFinish iv res t2 w1 = Inr w3" using onFinish_total[OF ne1] by blast
    show ?thesis using onFinish_Inr[OF w3] counts_follows[OF _ c1, of w3] w3 o1
      by (auto split: if_splits)
  qed
  show ?thesis using fire c1 w2 cl fin by blast
qed

text \<open>
  C1, amended. When the deadline timer of an admitted request fires, the snapshot gains
  one timeout and one failure. A completion or abrupt-termination signal that arrives
  afterwards does not count a timeout or a fire again, but it records its own outcome:
  \<open>close\<close>, and \<open>finish\<close> with a response that the error predicate classifies as an
  error, add one more failure; \<open>finish\<close> with any other response adds a success.
\<close>

theorem late_signal_recorded:
  assumes "counts w0 = Some (f, s, i, t)"
    and "middleware t0 w0 = Inr (w1, Admitted iv)"
    and "timeout_O (options (fst w0)) \<noteq> None"
  shows "counts w1 = Some (f, s, i + 1, t) \<and>
         (\<exists>h w2. timeoutId iv = Some h \<and> fire h t1 w1 = Some (Inr w2) \<and>
            counts w2 = Some (f + 1, s, i + 1, t + 1) \<and>
            (\<exists>w3. onClose iv t2 w2 = Inr w3 \<and> counts w3 = Some (f + 2, s, i + 1, t + 1)) \<and>
            (\<forall>res. \<exists>w3. onFinish iv res t2 w2 = Inr w3 \<and>
               counts w3 = (if isError (options (fst w0)) res
                            then Some (f + 2, s, i + 1, t + 1)
                            else Some (f + 1, s + 1, i + 1, t + 1))))"
proof -
  note m = middleware_Admitted[OF assms(2)]
  obtain cb rt where w1: "w1 = (cb, rt)" by (cases w1)
  let ?h = "nextTimer (snd w0)"
  have c1: "counts (cb, rt) = Some (f, s, i + 1, t)"
    using counts_follows[OF m(1) assms(1)] by (simp add: w1)
  from m(4)[OF assms(3)] m(2) obtain tm where h2: "timeoutId iv = Some ?h"
    and h3: "map_of (pending rt) ?h = Some tm"
    and h4: "callback tm = RequestTimedOut (startedAt iv)" and h5: "every tm = None"
    by (auto simp: w1)
  have o: "options cb = options (fst w0)" using m(1) by (simp add: follows_def w1)
  from late_signal_after_deadline[OF c1 h2 h3 h4 h5, of t1 t2] o
  show ?thesis using c1 h2 by (auto simp: w1)
qed

theorem late_signal_recorded_witness:
  "counts (sampleBreaker, sampleRuntime) = Some (0, 5, 5, 0) \<and>
   timeout_O (options sampleBreaker) \<noteq> None \<and>
   (\<exists>w1 iv. middleware 0 (sampleBreaker, sampleRuntime) = Inr (w1, Admitted iv) \<and>
      counts w1 = Some (0, 5, 6, 0) \<and>
      (\<exists>h w2. timeoutId iv = Some h \<and> fire h 10000 w1 = Some (Inr w2) \<and>
         counts w2 = Some (1, 5, 6, 1) \<and>
         (\<exists>w3. onClose iv 10005 w2 = Inr w3 \<and> counts w3 = Some (2, 5, 6, 1))))"
proof -
  have h3: "timeout_O (options (fst (sampleBreaker, sampleRuntime))) \<noteq> None"
    by (simp add: sampleBreaker_def defaultOptions_def)
  have "enabled (options (fst (sampleBreaker, sampleRuntime)))"
    and "state (fst (sampleBreaker, sampleRuntime)) \<noteq> Open \<or>
         logOnly (options (fst (sampleBreaker, sampleRuntime)))"
    and "buckets (status (fst (sampleBreaker, sampleRuntime))) \<noteq> []"
    using sample_nonempty by (simp_all add: sampleBreaker_def defaultOptions_def)
  from middleware_admits[OF this(3) this(1) this(2), of 0]
  obtain w1 iv where h2: "middleware 0 (sampleBreaker, sampleRuntime) = Inr (w1, Admitted iv)"
    by blast
  from late_signal_recorded[OF sample_counts h2 h3, of 10000 10005]
  have "counts w1 = Some (0, 5, 6, 0) \<and>
      (\<exists>h w2. timeoutId iv = Some h \<and> fire h 10000 w1 = Some (Inr w2) \<and>
         counts w2 = Some (1, 5, 6, 1) \<and>
         (\<exists>w3. onClose iv 10005 w2 = Inr w3 \<and> counts w3 = Some (2, 5, 6, 1)))"
    by auto
  then show ?thesis using sample_counts h2 h3 by auto
qed

subsection \<open>The probe state\<close>

text \<open>
  C5, as the claim states it, fails. A breaker with warm-up is opened by hand, and its reset
  timer fires while the warm-up is still active: the state is half-open, and the recorded
  failure leaves it half-open, because \<open>fail\<close> returns at the warm-up check.
\<close>

theorem probing_in_warm_up:
  "stateOf probingInWarmUp = Some HalfOpen \<and>
   stateOf (bind_r probingInWarmUp (fail 1002)) = Some HalfOpen"
  by code_simp

text \<open>
  C5, amended. In the half-open state one recorded success closes the circuit, whatever
  the counts are. One recorded failure opens it when the warm-up is not active, whatever
  the volume threshold, the error threshold and the counts are; while the warm-up is
  active the failure is counted and the state stays half-open.
\<close>

theorem half_open_probe:
  assumes "state cb = HalfOpen" and "buckets (status cb) \<noteq> []"
  shows "(\<exists>w'. success (cb, rt) = Inr w' \<and> state (fst w') = Closed) \<and>
         (\<exists>w'. fail now (cb, rt) = Inr w' \<and>
               state (fst w') = (if warmUp cb then HalfOpen else Open))"
proof -
  obtain w1 where w1: "success (cb, rt) = Inr w1"
    using success_total[of "(cb, rt)"] assms(2) by auto
  obtain w2 where w2: "fail now (cb, rt) = Inr w2"
    using fail_total[of "(cb, rt)" now] assms(2) by auto
  have "state (fst w1) = Closed" using success_Inr[OF w1] assms(1) by simp
  moreover have "state (fst w2) = (if warmUp cb then HalfOpen else Open)"
    using fail_Inr[OF w2] assms(1) by (simp add: trips_def)
  ultimately show ?thesis using w1 w2 by blast
qed

theorem half_open_probe_witness:
  "state (sampleBreaker\<lparr>state := HalfOpen\<rparr>) = HalfOpen \<and>
   buckets (status (sampleBreaker\<lparr>state := HalfOpen\<rparr>)) \<noteq> [] \<and>
   (\<exists>w'. success (sampleBreaker\<lparr>state := HalfOpen\<rparr>, sampleRuntime) = Inr w' \<and>
         state (fst w') = Closed) \<and>
   (\<exists>w'. fail 7 (sampleBreaker\<lparr>state := HalfOpen\<rparr>, sampleRuntime) = Inr w' \<and>
         state (fst w') = Open)"
proof -
  have h1: "state (sampleBreaker\<lparr>state := HalfOpen\<rparr>) = HalfOpen" by simp
  have h2: "buckets (status (sampleBreaker\<lparr>state := HalfOpen\<rparr>)) \<noteq> []"
    using sample_nonempty by simp
  have h3: "\<not> warmUp (sampleBreaker\<lparr>state := HalfOpen\<rparr>)" by (simp add: sampleBreaker_def)
  from half_open_probe[OF h1 h2, of sampleRuntime 7] h3 show ?thesis
    using h2 by simp
qed

subsection \<open>Shutdown\<close>

lemma map_of_clearTimer_same: "map_of (pending (clearTimer h rt)) h = None"
  by (auto simp: clearTimer_def map_of_eq_None_iff)

lemma map_of_clearTimer_None:
  "map_of (pending rt) h = None \<Longrightarrow> map_of (pending (clearTimer h' rt)) h = None"
  by (auto simp: clearTimer_def map_of_eq_None_iff)

lemma map_of_clearIfSet_same: "map_of (pending (clearIfSet (Some h) rt)) h = None"
  by (simp add: clearIfSet_def map_of_clearTimer_same)

lemma map_of_clearIfSet_None:
  "map_of (pending rt) h = None \<Longrightarrow> map_of (pending (clearIfSet t rt)) h = None"
  by (cases t) (simp_all add: clearIfSet_def map_of_clearTimer_None)

lemma map_of_clearIfSet:
  "t = Some h \<or> map_of (pending rt) h = None \<Longrightarrow> map_of (pending (clearIfSet t rt)) h = None"
  by (auto simp: map_of_clearIfSet_same map_of_clearIfSet_None)

lemma fire_not_pending: "map_of (pending (snd w)) h = None \<Longrightarrow> fire h now w = None"
  by (cases w) (simp add: fire_def)


text \<open>
  C2, as the claim states it, fails: after \<open>shutdown()\<close> the state is \<open>shutdown\<close>, and a
  call of \<open>open()\<close> changes it to \<open>open\<close>.
\<close>

theorem shut_down_reopens:
  "stateOf shutDownBreaker = Some Shutdown \<and>
   stateOf (bind_r shutDownBreaker (open_CB 5)) = Some Open"
  by code_simp

text \<open>
  C2, amended. \<open>shutdown()\<close> sets the state to \<open>shutdown\<close> and clears the reset timer, the
  warm-up timer and the rotation timer that the breaker holds, so none of them can fire
  afterwards, and a recorded success leaves the state at \<open>shutdown\<close>. The state is not
  terminal: \<open>open()\<close> then sets it to \<open>open\<close>, \<open>close()\<close> sets it to \<open>closed\<close>, and a
  recorded failure sets it to \<open>open\<close> exactly when the decision of \<open>fail\<close> on the
  warm-up flag, the volume and the error rate says so.
\<close>

theorem shutdown_effect:
  assumes "buckets (status cb) \<noteq> []"
  shows "state (fst (shutdown_CB (cb, rt))) = Shutdown \<and>
         (\<forall>h. resetTimeout cb = Some h \<or> warmupTimeout cb = Some h \<or>
              rotationTimer (status cb) = Some h \<longrightarrow>
              fire h now (shutdown_CB (cb, rt)) = None) \<and>
         (\<exists>w'. success (shutdown_CB (cb, rt)) = Inr w' \<and> state (fst w') = Shutdown) \<and>
         (\<exists>w'. open_CB now (shutdown_CB (cb, rt)) = Inr w' \<and> state (fst w') = Open) \<and>
         (\<exists>w'. close_CB (shutdown_CB (cb, rt)) = Inr w' \<and> state (fst w') = Closed) \<and>
         (\<exists>w'. fail now (shutdown_CB (cb, rt)) = Inr w' \<and>
               state (fst w') = (if trips (cb\<lparr>state := Shutdown\<rparr>) then Open else Shutdown))"
proof -
  let ?w = "shutdown_CB (cb, rt)"
  have fst: "fst ?w = cb\<lparr>state := Shutdown\<rparr>" by (simp add: shutdown_CB_def)
  have ne: "buckets (status (fst ?w)) \<noteq> []" using assms by (simp add: fst)
  have st: "state (fst ?w) = Shutdown" by (simp add: fst)
  have timers: "fire h now ?w = None"
    if "resetTimeout cb = Some h \<or> warmupTimeout cb = Some h \<or> rotationTimer (status cb) = Some h"
    for h
  proof -
    have "map_of (pending (snd ?w)) h = None"
      using that unfolding shutdown_CB_def shutdown_S_def
      by (auto intro!: map_of_clearIfSet)
    then show ?thesis by (rule fire_not_pending)
  qed
  obtain w1 where w1: "success ?w = Inr w1" using success_total[OF ne] by blast
  obtain w2 where w2: "open_CB now ?w = Inr w2" using open_CB_total[OF ne] by blast
  obtain w3 where w3: "close_CB ?w = Inr w3" using close_CB_total[OF ne] by blast
  obtain w4 where w4: "fail now ?w = Inr w4" using fail_total[OF ne] by blast
  have "state (fst w1) = Shutdown" using success_Inr[OF w1] st by simp
  moreover have "state (fst w2) = Open" using open_CB_Inr[OF w2] by simp
  moreover have "state (fst w3) = Closed" using close_CB_Inr[OF w3] by simp
  moreover have "state (fst w4) = (if trips (cb\<lparr>state := Shutdown\<rparr>) then Open else Shutdown)"
    using fail_Inr[OF w4] by (simp add: fst)
  ultimately show ?thesis using st timers w1 w2 w3 w4 by blast
qed

lemma rounding_trips:
  "buckets (status roundingBreaker) \<noteq> [] \<and> trips (roundingBreaker\<lparr>state := Shutdown\<rparr>)"
  by code_simp

theorem shutdown_effect_witness:
  "buckets (status sampleBreaker) \<noteq> [] \<and>
   state (fst (shutdown_CB (sampleBreaker, sampleRuntime))) = Shutdown \<and>
   fire 0 3 (shutdown_CB (sampleBreaker, sampleRuntime)) = None \<and>
   (\<exists>w'. open_CB 3 (shutdown_CB (sampleBreaker, sampleRuntime)) = Inr w' \<and>
         state (fst w') = Open) \<and>
   buckets (status roundingBreaker) \<noteq> [] \<and>
   (\<exists>w'. fail 3 (shutdown_CB (roundingBreaker, sampleRuntime)) = Inr w' \<and>
         state (fst w') = Open)"
proof -
  have "rotationTimer (status sampleBreaker) = Some 0"
    by (simp add: sampleBreaker_def sampleStatus_def)
  with shutdown_effect[OF sample_nonempty, of sampleRuntime 3]
  have a: "state (fst (shutdown_CB (sampleBreaker, sampleRuntime))) = Shutdown \<and>
      fire 0 3 (shutdown_CB (sampleBreaker, sampleRuntime)) = None \<and>
      (\<exists>w'. open_CB 3 (shutdown_CB (sampleBreaker, sampleRuntime)) = Inr w' \<and>
            state (fst w') = Open)"
    by simp
  have ne: "buckets (status roundingBreaker) \<noteq> []" using rounding_trips by simp
  from shutdown_effect[OF ne, of sampleRuntime 3] rounding_trips
  have b: "\<exists>w'. fail 3 (shutdown_CB (roundingBreaker, sampleRuntime)) = Inr w' \<and>
         state (fst w') = Open"
    by simp
  from a b ne sample_nonempty show ?thesis by simp
qed

subsection \<open>Construction\<close>

lemma call_nonempty:
  assumes "buckets s \<noteq> []"
  shows "\<exists>s'. call c s = Inr s' \<and> buckets s' \<noteq> []"
proof (cases c)
  case (Increment p l)
  obtain s' where "increment p l s = Inr s'" using increment_obtain[OF assms] by blast
  then show ?thesis using increment_effect(6) Increment by (auto simp: call_def)
next
  case Rotation
  then show ?thesis by (simp add: call_def rotation_def)
next
  case MarkOpen
  obtain s' where "open_S s = Inr s'" using open_S_obtain[OF assms] by blast
  then show ?thesis using open_S_effect(6) MarkOpen by (auto simp: call_def)
next
  case MarkClose
  obtain s' where "close_S s = Inr s'" using close_S_obtain[OF assms] by blast
  then show ?thesis using close_S_effect(6) MarkClose by (auto simp: call_def)
qed

lemma calls_nonempty:
  "buckets s \<noteq> [] \<Longrightarrow> \<exists>s'. calls cs s = Inr s' \<and> buckets s' \<noteq> []"
proof (induction cs arbitrary: s)
  case Nil
  then show ?case by simp
next
  case (Cons c cs)
  from call_nonempty[OF Cons.prems] obtain s1 where "call c s = Inr s1" "buckets s1 \<noteq> []"
    by blast
  then show ?case using Cons.IH[of s1] by (simp add: bind_r_def)
qed

lemma timerDelay_over_zero: "timerDelay (js_divide a 0) = 1"
  by (simp add: js_divide_def timerDelay_def)

lemma Status_new_Inl:
  "4294967296 \<le> rollingCountBuckets opts \<Longrightarrow> Status_new opts now rt = Inl RangeError"
  by (simp add: Status_new_def)

lemma Status_new_Inr:
  assumes "rollingCountBuckets opts < 4294967296"
  shows "\<exists>s rt' tm. Status_new opts now rt = Inr (s, rt') \<and>
           buckets s = replicate (nat (rollingCountBuckets opts)) createBucket \<and>
           rotationTimer s = Some (nextTimer rt) \<and>
           map_of (pending rt') (nextTimer rt) = Some tm \<and>
           callback tm = RotateBuckets \<and>
           every tm =
             Some (timerDelay (js_divide (of_int (rollingCountTimeout opts))
                                 (of_nat (nat (rollingCountBuckets opts))))) \<and>
           dueAt tm =
             now + timerDelay (js_divide (of_int (rollingCountTimeout opts))
                                 (of_nat (nat (rollingCountBuckets opts))))"
  using assms
  by (simp add: Status_new_def rotateBuckets_def setInterval_def register_def Let_def)

lemma CircuitBreakerMiddleware_new_Inr:
  assumes "Status_new
             \<lparr>rollingCountBuckets = rollingCountBuckets_O copts,
              rollingCountTimeout = rollingCountTimeout_O copts,
              rollingPercentilesEnabled = Some (rollingPercentilesEnabled_O copts)\<rparr> now rt =
           Inr (s, rt1)"
  shows "buckets s = [] \<Longrightarrow> CircuitBreakerMiddleware_new copts now rt = Inl TypeError"
    and "buckets s \<noteq> [] \<Longrightarrow>
           \<exists>w. CircuitBreakerMiddleware_new copts now rt = Inr w \<and> state (fst w) = Closed \<and>
               status (fst w) = s \<and> options (fst w) = copts \<and>
               warmUp (fst w) = allowWarmUp copts"
proof -
  show "CircuitBreakerMiddleware_new copts now rt = Inl TypeError" if "buckets s = []"
  proof -
    from that have "stats s = Inl TypeError" by (simp add: stats_Inl_iff)
    then show ?thesis using assms
      by (simp add: CircuitBreakerMiddleware_new_def bind_r_def Let_def split: prod.splits)
  qed
  show "\<exists>w. CircuitBreakerMiddleware_new copts now rt = Inr w \<and> state (fst w) = Closed \<and>
           status (fst w) = s \<and> options (fst w) = copts \<and> warmUp (fst w) = allowWarmUp copts"
    if "buckets s \<noteq> []"
  proof -
    from that obtain sn where "stats s = Inr sn" using stats_Inr_iff by blast
    then show ?thesis using assms
      by (simp add: CircuitBreakerMiddleware_new_def bind_r_def Let_def split: prod.splits)
  qed
qed

text \<open>
  C3, as the claim states it, fails: a window with a bucket count of zero is constructed
  without an error, it has no bucket, and the increment and the snapshot fail at call
  time.
\<close>

theorem no_bucket_fails_at_call_time:
  "bucketCount (constructed (testOptions\<lparr>rollingCountBuckets := 0\<rparr>)) = Some 0 \<and>
   thrown (bind_r (constructed (testOptions\<lparr>rollingCountBuckets := 0\<rparr>))
             (increment Failures None)) = Some TypeError \<and>
   thrown (bind_r (constructed (testOptions\<lparr>rollingCountBuckets := 0\<rparr>)) stats) =
     Some TypeError"
  by code_simp

text \<open>
  C3, amended. The constructors check neither the bucket count nor the window duration.
  The only configuration that fails at the construction of the window is a bucket count
  of \<open>2^32\<close> or more, with the RangeError of the array constructor. With a smaller bucket
  count the window is constructed, whatever the window duration is, and its interval
  timer is registered. When the bucket count is below 1 the window has no bucket: the
  increment and the snapshot fail at call time with a TypeError until the interval
  callback, which is due 1 ms after the construction, has run once; from then on the
  window has one bucket, and no sequence of increments, rotations and open and close
  marks fails, and the snapshot after it succeeds. When the bucket count is at least 1,
  no such sequence fails from the construction on. The constructor of the breaker reads a
  snapshot: it throws that TypeError at construction when the bucket count is below 1,
  the RangeError when it is \<open>2^32\<close> or more, and returns a closed breaker otherwise.
\<close>

theorem construction_does_not_validate:
  "(4294967296 \<le> rollingCountBuckets opts \<longrightarrow> Status_new opts now rt = Inl RangeError) \<and>
   (rollingCountBuckets opts < 4294967296 \<longrightarrow>
      (\<exists>s rt' tm.
         Status_new opts now rt = Inr (s, rt') \<and>
         length (buckets s) = nat (rollingCountBuckets opts) \<and>
         rotationTimer s = Some (nextTimer rt) \<and>
         map_of (pending rt') (nextTimer rt) = Some tm \<and> callback tm = RotateBuckets \<and>
         (rollingCountBuckets opts < 1 \<longrightarrow>
            increment p l s = Inl TypeError \<and> stats s = Inl TypeError \<and>
            dueAt tm = now + 1 \<and> length (buckets (rotation s)) = 1 \<and>
            (\<exists>s' sn. calls cs (rotation s) = Inr s' \<and> stats s' = Inr sn)) \<and>
         (1 \<le> rollingCountBuckets opts \<longrightarrow>
            (\<exists>s' sn. calls cs s = Inr s' \<and> stats s' = Inr sn)))) \<and>
   (4294967296 \<le> rollingCountBuckets_O copts \<longrightarrow>
      CircuitBreakerMiddleware_new copts now rt = Inl RangeError) \<and>
   (rollingCountBuckets_O copts < 1 \<longrightarrow>
      CircuitBreakerMiddleware_new copts now rt = Inl TypeError) \<and>
   (1 \<le> rollingCountBuckets_O copts \<and> rollingCountBuckets_O copts < 4294967296 \<longrightarrow>
      (\<exists>w. CircuitBreakerMiddleware_new copts now rt = Inr w \<and> state (fst w) = Closed \<and>
           buckets (status (fst w)) \<noteq> []))"
proof (intro conjI impI)
  assume "4294967296 \<le> rollingCountBuckets opts"
  then show "Status_new opts now rt = Inl RangeError" by (rule Status_new_Inl)
next
  assume small: "rollingCountBuckets opts < 4294967296"
  from Status_new_Inr[OF small, of now rt]
  obtain s rt' tm where n: "Status_new opts now rt = Inr (s, rt')"
    and b: "buckets s = replicate (nat (rollingCountBuckets opts)) createBucket"
    and r: "rotationTimer s = Some (nextTimer rt)"
    and m: "map_of (pending rt') (nextTimer rt) = Some tm" "callback tm = RotateBuckets"
    and d: "dueAt tm =
              now + timerDelay (js_divide (of_int (rollingCountTimeout opts))
                                  (of_nat (nat (rollingCountBuckets opts))))"
    by blast
  have none: "increment p l s = Inl TypeError \<and> stats s = Inl TypeError \<and>
            dueAt tm = now + 1 \<and> length (buckets (rotation s)) = 1 \<and>
            (\<exists>s' sn. calls cs (rotation s) = Inr s' \<and> stats s' = Inr sn)"
    if "rollingCountBuckets opts < 1"
  proof -
    from that have e: "buckets s = []" and z: "nat (rollingCountBuckets opts) = 0"
      by (simp_all add: b)
    have "buckets (rotation s) \<noteq> []" by (simp add: rotation_def)
    from calls_nonempty[OF this, of cs] obtain s' where "calls cs (rotation s) = Inr s'"
      and "buckets s' \<noteq> []" by blast
    then have "\<exists>s' sn. calls cs (rotation s) = Inr s' \<and> stats s' = Inr sn"
      using stats_Inr_iff by blast
    moreover have "dueAt tm = now + 1" using d by (simp add: z timerDelay_over_zero)
    moreover have "length (buckets (rotation s)) = 1" using e by (simp add: rotation_def)
    ultimately show ?thesis using e by (simp add: increment_Inl_iff stats_Inl_iff)
  qed
  have some: "\<exists>s' sn. calls cs s = Inr s' \<and> stats s' = Inr sn"
    if "1 \<le> rollingCountBuckets opts"
  proof -
    from that have "buckets s \<noteq> []" by (simp add: b)
    from calls_nonempty[OF this, of cs] obtain s' where "calls cs s = Inr s'"
      and "buckets s' \<noteq> []" by blast
    then show ?thesis using stats_Inr_iff by blast
  qed
  have "length (buckets s) = nat (rollingCountBuckets opts)" by (simp add: b)
  then show "\<exists>s rt' tm.
         Status_new opts now rt = Inr (s, rt') \<and>
         length (buckets s) = nat (rollingCountBuckets opts) \<and>
         rotationTimer s = Some (nextTimer rt) \<and>
         map_of (pending rt') (nextTimer rt) = Some tm \<and> callback tm = RotateBuckets \<and>
         (rollingCountBuckets opts < 1 \<longrightarrow>
            increment p l s = Inl TypeError \<and> stats s = Inl TypeError \<and>
            dueAt tm = now + 1 \<and> length (buckets (rotation s)) = 1 \<and>
            (\<exists>s' sn. calls cs (rotation s) = Inr s' \<and> stats s' = Inr sn)) \<and>
         (1 \<le> rollingCountBuckets opts \<longrightarrow>
            (\<exists>s' sn. calls cs s = Inr s' \<and> stats s' = Inr sn))"
    using n r m none some by blast
next
  let ?so = "\<lparr>rollingCountBuckets = rollingCountBuckets_O copts,
              rollingCountTimeout = rollingCountTimeout_O copts,
              rollingPercentilesEnabled = Some (rollingPercentilesEnabled_O copts)\<rparr>"
  assume "4294967296 \<le> rollingCountBuckets_O copts"
  then have "Status_new ?so now rt = Inl RangeError" by (simp add: Status_new_Inl)
  then show "CircuitBreakerMiddleware_new copts now rt = Inl RangeError"
    by (simp add: CircuitBreakerMiddleware_new_def bind_r_def)
next
  let ?so = "\<lparr>rollingCountBuckets = rollingCountBuckets_O copts,
              rollingCountTimeout = rollingCountTimeout_O copts,
              rollingPercentilesEnabled = Some (rollingPercentilesEnabled_O copts)\<rparr>"
  assume lt: "rollingCountBuckets_O copts < 1"
  then have "rollingCountBuckets ?so < 4294967296" by simp
  from Status_new_Inr[OF this, of now rt] lt
  obtain s rt' where "Status_new ?so now rt = Inr (s, rt')" and "buckets s = []" by auto
  then show "CircuitBreakerMiddleware_new copts now rt = Inl TypeError"
    using CircuitBreakerMiddleware_new_Inr(1) by blast
next
  let ?so = "\<lparr>rollingCountBuckets = rollingCountBuckets_O copts,
              rollingCountTimeout = rollingCountTimeout_O copts,
              rollingPercentilesEnabled = Some (rollingPercentilesEnabled_O copts)\<rparr>"
  assume "1 \<le> rollingCountBuckets_O copts \<and> rollingCountBuckets_O copts < 4294967296"
  then have ge: "1 \<le> rollingCountBuckets_O copts"
    and "rollingCountBuckets ?so < 4294967296" by simp_all
  from Status_new_Inr[OF this(2), of now rt] ge
  obtain s rt' where n: "Status_new ?so now rt = Inr (s, rt')" and ne: "buckets s \<noteq> []"
    by auto
  from CircuitBreakerMiddleware_new_Inr(2)[OF n ne]
  show "\<exists>w. CircuitBreakerMiddleware_new copts now rt = Inr w \<and> state (fst w) = Closed \<and>
           buckets (status (fst w)) \<noteq> []"
    using ne by auto
qed

theorem construction_does_not_validate_witness:
  "Status_new (testOptions\<lparr>rollingCountBuckets := 4294967296\<rparr>) 0 newRuntime = Inl RangeError \<and>
   (\<exists>s rt' tm.
      Status_new (testOptions\<lparr>rollingCountBuckets := 0\<rparr>) 0 newRuntime = Inr (s, rt') \<and>
      length (buckets s) = 0 \<and>
      map_of (pending rt') 0 = Some tm \<and> callback tm = RotateBuckets \<and> dueAt tm = 1 \<and>
      increment Failures None s = Inl TypeError \<and> stats s = Inl TypeError \<and>
      length (buckets (rotation s)) = 1 \<and>
      (\<exists>s' sn. calls fiveSamples (rotation s) = Inr s' \<and> stats s' = Inr sn)) \<and>
   (\<exists>s rt'.
      Status_new (testOptions\<lparr>rollingCountTimeout := 0\<rparr>) 0 newRuntime = Inr (s, rt') \<and>
      length (buckets s) = 10 \<and>
      (\<exists>s' sn. calls fiveSamples s = Inr s' \<and> stats s' = Inr sn)) \<and>
   CircuitBreakerMiddleware_new (defaultOptions\<lparr>rollingCountBuckets_O := 4294967296\<rparr>) 0
     newRuntime = Inl RangeError \<and>
   CircuitBreakerMiddleware_new (defaultOptions\<lparr>rollingCountBuckets_O := 0\<rparr>) 0 newRuntime =
     Inl TypeError \<and>
   (\<exists>w. CircuitBreakerMiddleware_new defaultOptions 0 newRuntime = Inr w \<and>
        state (fst w) = Closed)"
proof -
  note big = construction_does_not_validate
         [of "testOptions\<lparr>rollingCountBuckets := 4294967296\<rparr>" 0 newRuntime Failures None
             fiveSamples "defaultOptions\<lparr>rollingCountBuckets_O := 4294967296\<rparr>"]
  note zero = construction_does_not_validate
         [of "testOptions\<lparr>rollingCountBuckets := 0\<rparr>" 0 newRuntime Failures None
             fiveSamples "defaultOptions\<lparr>rollingCountBuckets_O := 0\<rparr>"]
  note ten = construction_does_not_validate
         [of "testOptions\<lparr>rollingCountTimeout := 0\<rparr>" 0 newRuntime Failures None
             fiveSamples defaultOptions]
  have a: "Status_new (testOptions\<lparr>rollingCountBuckets := 4294967296\<rparr>) 0 newRuntime =
             Inl RangeError"
    and b: "CircuitBreakerMiddleware_new
              (defaultOptions\<lparr>rollingCountBuckets_O := 4294967296\<rparr>) 0 newRuntime =
            Inl RangeError"
    using big by simp_all
  have c: "\<exists>s rt' tm.
      Status_new (testOptions\<lparr>rollingCountBuckets := 0\<rparr>) 0 newRuntime = Inr (s, rt') \<and>
      length (buckets s) = 0 \<and>
      map_of (pending rt') 0 = Some tm \<and> callback tm = RotateBuckets \<and> dueAt tm = 1 \<and>
      increment Failures None s = Inl TypeError \<and> stats s = Inl TypeError \<and>
      length (buckets (rotation s)) = 1 \<and>
      (\<exists>s' sn. calls fiveSamples (rotation s) = Inr s' \<and> stats s' = Inr sn)"
    and d: "CircuitBreakerMiddleware_new (defaultOptions\<lparr>rollingCountBuckets_O := 0\<rparr>) 0
              newRuntime = Inl TypeError"
    using zero by (auto simp: newRuntime_def)
  have e: "\<exists>s rt'.
      Status_new (testOptions\<lparr>rollingCountTimeout := 0\<rparr>) 0 newRuntime = Inr (s, rt') \<and>
      length (buckets s) = 10 \<and>
      (\<exists>s' sn. calls fiveSamples s = Inr s' \<and> stats s' = Inr sn)"
    and f: "\<exists>w. CircuitBreakerMiddleware_new defaultOptions 0 newRuntime = Inr w \<and>
        state (fst w) = Closed"
    using ten by (auto simp: testOptions_def defaultOptions_def)
  from a b c d e f show ?thesis by blast
qed

subsection \<open>Runs of events\<close>

lemma step_total:
  assumes "buckets (status (fst w)) \<noteq> []"
  shows "\<exists>w'. step e w = Inr w'"
proof -
  obtain cb rt where w: "w = (cb, rt)" by (cases w)
  show ?thesis
  proof (cases e)
    case Fire
    obtain st where "increment Fires None (status cb) = Inr st"
      using assms increment_obtain[of "status cb"] by (auto simp: w)
    then show ?thesis using Fire by (simp add: step_def w bind_r_def)
  next
    case (Fail now)
    then show ?thesis using fail_total[OF assms] by (simp add: step_def w)
  next
    case Success
    then show ?thesis using success_total[OF assms] by (simp add: step_def w)
  next
    case Rotate
    then show ?thesis by (simp add: step_def w)
  qed
qed

lemma step_Fire:
  assumes "step Fire w = Inr w'"
  shows "follows w w' 0 0 1 0" "state (fst w') = state (fst w)" "snd w' = snd w"
    "resetTimeout (fst w') = resetTimeout (fst w)"
proof -
  obtain cb rt where w: "w = (cb, rt)" by (cases w)
  from assms obtain st where st: "increment Fires None (status cb) = Inr st"
    and w': "w' = (cb\<lparr>status := st\<rparr>, rt)"
    by (auto simp: step_def w bind_r_def split: sum.splits)
  show "follows w w' 0 0 1 0" "state (fst w') = state (fst w)" "snd w' = snd w"
    "resetTimeout (fst w') = resetTimeout (fst w)"
    using increment_effect[OF st] by (simp_all add: w w' follows_def)
qed

lemma step_frame:
  assumes "step e w = Inr w'"
  shows "options (fst w') = options (fst w)" "warmUp (fst w') = warmUp (fst w)"
    "warmupTimeout (fst w') = warmupTimeout (fst w)" "buckets (status (fst w')) \<noteq> []"
proof -
  obtain cb rt where w: "w = (cb, rt)" by (cases w)
  have "options (fst w') = options (fst w) \<and> warmUp (fst w') = warmUp (fst w) \<and>
    warmupTimeout (fst w') = warmupTimeout (fst w) \<and> buckets (status (fst w')) \<noteq> []"
  proof (cases e)
    case Fire
    from assms obtain st where st: "increment Fires None (status cb) = Inr st"
      and w': "w' = (cb\<lparr>status := st\<rparr>, rt)"
      by (auto simp: Fire step_def w bind_r_def split: sum.splits)
    show ?thesis using increment_effect(6)[OF st] by (simp add: w w')
  next
    case (Fail now)
    with assms have f: "fail now w = Inr w'" by (simp add: step_def w)
    from assms obtain st where st: "increment Failures None (status cb) = Inr st"
      by (auto simp: Fail step_def fail_def w bind_r_def split: sum.splits)
    have "buckets (status (fst w)) \<noteq> []" using st by (auto simp: increment_def w)
    then show ?thesis using fail_Inr[OF f] by (auto simp: follows_def)
  next
    case Success
    with assms have f: "success w = Inr w'" by (simp add: step_def w)
    from assms obtain st where st: "increment Successes None (status cb) = Inr st"
      by (auto simp: Success step_def success_def w bind_r_def split: sum.splits)
    have "buckets (status (fst w)) \<noteq> []" using st by (auto simp: increment_def w)
    then show ?thesis using success_Inr[OF f] by (auto simp: follows_def)
  next
    case Rotate
    with assms show ?thesis by (auto simp: step_def w rotation_def)
  qed
  then show "options (fst w') = options (fst w)" "warmUp (fst w') = warmUp (fst w)"
    "warmupTimeout (fst w') = warmupTimeout (fst w)" "buckets (status (fst w')) \<noteq> []"
    by simp_all
qed


lemma step_Fail:
  assumes "step (Fail now) w = Inr w'"
  shows "follows w w' 1 0 0 0"
    and "state (fst w') = (if trips (fst w) then Open else state (fst w))"
    and "warmUp (fst w) \<Longrightarrow> snd w' = snd w \<and> resetTimeout (fst w') = resetTimeout (fst w)"
proof -
  obtain cb rt where w: "w = (cb, rt)" by (cases w)
  from assms have f: "fail now w = Inr w'" by (simp add: step_def w)
  from fail_Inr[OF f] show "follows w w' 1 0 0 0"
    and "state (fst w') = (if trips (fst w) then Open else state (fst w))" by simp_all
  show "snd w' = snd w \<and> resetTimeout (fst w') = resetTimeout (fst w)" if "warmUp (fst w)"
    using that f by (auto simp: fail_def w bind_r_def split: sum.splits)
qed

lemma step_Success:
  assumes "step Success w = Inr w'"
  shows "follows w w' 0 1 0 0"
    and "state (fst w') = (if state (fst w) = HalfOpen then Closed else state (fst w))"
proof -
  obtain cb rt where w: "w = (cb, rt)" by (cases w)
  from assms have f: "success w = Inr w'" by (simp add: step_def w)
  from success_Inr[OF f] show "follows w w' 0 1 0 0"
    and "state (fst w') = (if state (fst w) = HalfOpen then Closed else state (fst w))"
    by simp_all
qed

lemma step_Rotate:
  "step Rotate w = Inr w' \<Longrightarrow> state (fst w') = state (fst w)"
  by (cases w) (auto simp: step_def)

lemma run_total:
  "buckets (status (fst w)) \<noteq> [] \<Longrightarrow> \<exists>w'. run es w = Inr w'"
proof (induction es arbitrary: w)
  case Nil
  then show ?case by simp
next
  case (Cons e es)
  obtain w1 where w1: "step e w = Inr w1" using step_total[OF Cons.prems] by blast
  from Cons.IH[OF step_frame(4)[OF w1]] show ?case by (simp add: w1 bind_r_def)
qed

lemma interval_1000: "timerDelay (js_divide 10000 10) = 1000"
  by code_simp

lemma constructed_windows:
  "constructed testOptions = Inr tenBuckets \<and>
   constructed (testOptions\<lparr>rollingCountBuckets := 2\<rparr>) = Inr twoBuckets"
  by (simp add: constructed_def Status_new_def rotateBuckets_def setInterval_def register_def
      newRuntime_def bind_r_def testOptions_def tenBuckets_def twoBuckets_def Let_def
      eval_nat_numeral)

lemma delay_10000: "timerDelay (Finite 10000) = 10000"
  by (simp add: timerDelay_def)

lemma constructed_empty:
  "CircuitBreakerMiddleware_new (defaultOptions\<lparr>volumeThreshold := 3\<rparr>) 0 newRuntime =
     Inr (emptyBreaker, emptyRuntime)"
  apply (simp add: CircuitBreakerMiddleware_new_def emptyBreaker_def emptyRuntime_def
      Status_new_def rotateBuckets_def setTimeout_def setInterval_def register_def
      newRuntime_def testOptions_def defaultOptions_def Let_def bind_r_def interval_1000
      tenBuckets_def rotationTimer0_def)
  apply (simp add: stats_def Let_def eval_nat_numeral)
  done

lemma constructed_warm:
  "CircuitBreakerMiddleware_new
     (defaultOptions\<lparr>allowWarmUp := True, volumeThreshold := 3\<rparr>) 0 newRuntime =
     Inr (warmBreaker, warmRuntime)"
  apply (simp add: CircuitBreakerMiddleware_new_def warmBreaker_def emptyBreaker_def
      warmRuntime_def Status_new_def rotateBuckets_def setTimeout_def setInterval_def
      register_def newRuntime_def testOptions_def defaultOptions_def Let_def bind_r_def
      interval_1000 delay_10000 tenBuckets_def rotationTimer0_def)
  apply (simp add: stats_def Let_def eval_nat_numeral)
  done

lemma empty_counts: "counts (emptyBreaker, emptyRuntime) = Some (0, 0, 0, 0)"
  by code_simp

lemma empty_nonempty: "buckets (status emptyBreaker) \<noteq> []"
  by code_simp

subsection \<open>Counting outcomes\<close>

lemma run_recorded:
  assumes "buckets (status (fst w)) \<noteq> []"
  shows "\<exists>w'. run (recorded now os) w = Inr w' \<and>
           follows w w' (length (filter Not os)) (length (filter id os)) (length os) 0"
  using assms
proof (induction os arbitrary: w)
  case Nil
  then show ?case by (simp add: recorded_def follows_def)
next
  case (Cons ok os)
  obtain w1 where w1: "step Fire w = Inr w1" using step_total[OF Cons.prems] by blast
  have ne1: "buckets (status (fst w1)) \<noteq> []" using step_frame(4)[OF w1] .
  obtain w2 where w2: "step (if ok then Success else Fail now) w1 = Inr w2"
    using step_total[OF ne1] by blast
  have ne2: "buckets (status (fst w2)) \<noteq> []" using step_frame(4)[OF w2] .
  from Cons.IH[OF ne2] obtain w' where r: "run (recorded now os) w2 = Inr w'"
    and f: "follows w2 w' (length (filter Not os)) (length (filter id os)) (length os) 0"
    by blast
  have f2: "follows w1 w2 (if ok then 0 else 1) (if ok then 1 else 0) 0 0"
    using w2 step_Fail(1)[of now w1 w2] step_Success(1)[of w1 w2] by (cases ok) simp_all
  have "run (recorded now (ok # os)) w = Inr w'"
    using w1 w2 r by (simp add: recorded_def bind_r_def)
  moreover have "follows w w' (length (filter Not (ok # os))) (length (filter id (ok # os)))
      (length (ok # os)) 0"
    using follows_trans[OF follows_trans[OF step_Fire(1)[OF w1] f2] f]
    by (cases ok) (simp_all add: add.commute)
  ultimately show ?case by blast
qed


lemma run_recorded_counts:
  assumes "counts w = Some (f, s, i, t)"
  shows "\<exists>w' sn. run (recorded now os) w = Inr w' \<and> stats (status (fst w')) = Inr sn \<and>
           fires sn = i + (length (filter id os) + length (filter Not os)) \<and>
           successes sn = s + length (filter id os) \<and>
           failures sn = f + length (filter Not os) \<and>
           timeouts sn = t"
proof -
  have ne: "buckets (status (fst w)) \<noteq> []" using assms by (simp add: counts_Some_iff)
  from run_recorded[OF ne] obtain w' where r: "run (recorded now os) w = Inr w'"
    and fo: "follows w w' (length (filter Not os)) (length (filter id os)) (length os) 0"
    by blast
  have c: "counts w' = Some (f + length (filter Not os), s + length (filter id os),
                            i + length os, t + 0)"
    using counts_follows[OF fo assms] .
  then obtain sn where sn: "stats (status (fst w')) = Inr sn"
    by (auto simp: counts_def split: sum.splits)
  have len: "length os = length (filter id os) + length (filter Not os)"
    using sum_length_filter_compl[of id os] by (simp add: comp_def)
  show ?thesis using r sn c len by (auto simp: counts_def)
qed

lemma admitted_request_counted:
  assumes "counts w = Some (f, s, i, t)"
    and "middleware now w = Inr (w1, Admitted iv)"
    and "onFinish iv res later w1 = Inr w2"
  shows "counts w2 = (if isError (options (fst w)) res
                      then Some (f + 1, s, i + 1, t) else Some (f, s + 1, i + 1, t))"
proof -
  note m = middleware_Admitted[OF assms(2)]
  have c1: "counts w1 = Some (f, s, i + 1, t)" using counts_follows[OF m(1) assms(1)] by simp
  have o: "options (fst w1) = options (fst w)" using m(1) by (simp add: follows_def)
  show ?thesis
    using onFinish_Inr[OF assms(3)] counts_follows[OF _ c1, of w2] o
    by (auto split: if_splits)
qed

text \<open>
  C8. A window with a bucket holds some counts. After any sequence of requests that are
  counted and then recorded as a success or as a failure, with no rotation in between,
  the snapshot has gained one invocation per request, one success per request recorded as
  a success and one failure per request recorded as a failure; from an empty window it
  reports \<open>fires = N + M\<close>, \<open>successes = N\<close> and \<open>failures = M\<close>. These are the calls
  the middleware makes: a request that it admits and that finishes gains one invocation at
  admission and one success or one failure in the \<open>finish\<close> handler.
\<close>

theorem recorded_outcomes_counted:
  assumes "counts w = Some (f, s, i, t)"
  shows "(\<exists>w' sn. run (recorded now os) w = Inr w' \<and> stats (status (fst w')) = Inr sn \<and>
            fires sn = i + (length (filter id os) + length (filter Not os)) \<and>
            successes sn = s + length (filter id os) \<and>
            failures sn = f + length (filter Not os) \<and>
            timeouts sn = t) \<and>
         (\<forall>w1 iv res later w2.
            middleware now w = Inr (w1, Admitted iv) \<and> onFinish iv res later w1 = Inr w2 \<longrightarrow>
            counts w2 = (if isError (options (fst w)) res
                         then Some (f + 1, s, i + 1, t) else Some (f, s + 1, i + 1, t)))"
  using run_recorded_counts[OF assms] admitted_request_counted[OF assms] by blast

theorem recorded_outcomes_counted_witness:
  "counts (emptyBreaker, emptyRuntime) = Some (0, 0, 0, 0) \<and>
   (\<exists>w' sn. run (recorded 9 [True, False, True]) (emptyBreaker, emptyRuntime) = Inr w' \<and>
      stats (status (fst w')) = Inr sn \<and>
      fires sn = 3 \<and> successes sn = 2 \<and> failures sn = 1 \<and> timeouts sn = 0) \<and>
   (\<exists>w1 iv w2. middleware 9 (emptyBreaker, emptyRuntime) = Inr (w1, Admitted iv) \<and>
      onFinish iv \<lparr>statusCode = 200\<rparr> 12 w1 = Inr w2 \<and> counts w2 = Some (0, 1, 1, 0))"
proof -
  note t = recorded_outcomes_counted[OF empty_counts, of 9]
  from t[of "[True, False, True]"]
  have a: "\<exists>w' sn. run (recorded 9 [True, False, True]) (emptyBreaker, emptyRuntime) = Inr w' \<and>
      stats (status (fst w')) = Inr sn \<and>
      fires sn = 3 \<and> successes sn = 2 \<and> failures sn = 1 \<and> timeouts sn = 0"
    by (simp add: eval_nat_numeral)
  have ne: "buckets (status (fst (emptyBreaker, emptyRuntime))) \<noteq> []"
    using empty_nonempty by simp
  have "enabled (options (fst (emptyBreaker, emptyRuntime)))"
    and "state (fst (emptyBreaker, emptyRuntime)) \<noteq> Open \<or>
         logOnly (options (fst (emptyBreaker, emptyRuntime)))"
    by (simp_all add: emptyBreaker_def defaultOptions_def)
  from middleware_admits[OF ne this, of 9]
  obtain w1 iv where m: "middleware 9 (emptyBreaker, emptyRuntime) = Inr (w1, Admitted iv)"
    by blast
  have ne1: "buckets (status (fst w1)) \<noteq> []"
    using follows_nonempty[OF middleware_Admitted(1)[OF m] ne] .
  obtain w2 where f: "onFinish iv \<lparr>statusCode = 200\<rparr> 12 w1 = Inr w2"
    using onFinish_total[OF ne1] by blast
  have ok: "\<not> isError (options (fst (emptyBreaker, emptyRuntime))) \<lparr>statusCode = 200\<rparr>"
    by (simp add: emptyBreaker_def defaultOptions_def defaultErrorFn_def)
  from t[of "[]"] m f ok have "counts w2 = Some (0, 1, 1, 0)"
    by (metis (no_types, lifting) add_0 add.commute One_nat_def plus_1_eq_Suc)
  then show ?thesis using empty_counts a m f by blast
qed

subsection \<open>The volume threshold\<close>

lemma staysBelow_closed:
  assumes "staysBelow es w" and "state (fst w) = Closed"
  shows "\<exists>w'. run es w = Inr w' \<and> state (fst w') = Closed"
  using assms
proof (induction es arbitrary: w)
  case Nil
  then show ?case by simp
next
  case (Cons e es)
  from Cons.prems(1) obtain w1 sn where w1: "step e w = Inr w1"
    and sn: "stats (status (fst w1)) = Inr sn"
    and below: "int (fires sn) < volumeThreshold (options (fst w1))"
    and rest: "staysBelow es w1"
    by (auto split: sum.splits)
  have c1: "state (fst w1) = Closed"
  proof (cases e)
    case Fire
    then show ?thesis using step_Fire(2)[of w w1] w1 Cons.prems(2) by simp
  next
    case (Fail now)
    with w1 have s: "step (Fail now) w = Inr w1" by simp
    have "aggregate fires (status (fst w)) = fires sn"
      using step_Fail(1)[OF s] stats_aggregate(3)[OF sn] by (simp add: follows_def)
    moreover have "options (fst w1) = options (fst w)" using step_frame(1)[OF w1] .
    ultimately have "\<not> trips (fst w)" using below Cons.prems(2) by (simp add: trips_def)
    then show ?thesis using step_Fail(2)[OF s] Cons.prems(2) by simp
  next
    case Success
    then show ?thesis using step_Success(2)[of w w1] w1 Cons.prems(2) by simp
  next
    case Rotate
    then show ?thesis using step_Rotate[of w w1] w1 Cons.prems(2) by simp
  qed
  from Cons.IH[OF rest c1] show ?case by (simp add: w1 bind_r_def)
qed

lemma staysBelow_take: "staysBelow es w \<Longrightarrow> staysBelow (take k es) w"
proof (induction es arbitrary: w k)
  case Nil
  then show ?case by simp
next
  case (Cons e es)
  show ?case
  proof (cases k)
    case 0
    then show ?thesis by simp
  next
    case (Suc j)
    then show ?thesis using Cons.prems Cons.IH[of _ j] by (auto split: sum.splits)
  qed
qed

lemma failing_Suc: "failing (Suc n) now = Fire # Fail now # failing n now"
  by (simp add: failing_def)

lemma double_1: "double 1 = Finite 1"
  by code_simp

lemma double_100: "double 100 = Finite 100"
  by code_simp

lemma errorRate_full: "0 < k \<Longrightarrow> errorRate k k = Finite 100"
  by (simp add: errorRate_def js_divide_def js_times_def double_1 double_100)

text \<open>
  The two roundings show in the rate: 11 failures of 20 invocations give
  \<open>55.00000000000001\<close>, which exceeds a threshold of 55.
\<close>

lemma errorRate_rounds: "errorRate 11 20 = Finite (55 + 1 / 2 ^ 47) \<and> js_greater (errorRate 11 20) 55"
  by code_simp

lemma failing_round:
  assumes "buckets (status (fst w)) \<noteq> []"
  shows "\<exists>w1 w2. step Fire w = Inr w1 \<and> step (Fail now) w1 = Inr w2 \<and>
           follows w w2 1 0 1 0 \<and>
           state (fst w2) = (if trips (fst w1) then Open else state (fst w)) \<and>
           trips (fst w1) =
             (\<not> warmUp (fst w) \<and>
              (state (fst w) = HalfOpen \<or>
               (volumeThreshold (options (fst w)) \<le> int (Suc (aggregate fires (status (fst w)))) \<and>
                js_greater (errorRate (Suc (aggregate failures (status (fst w))))
                                      (Suc (aggregate fires (status (fst w)))))
                  (errorThresholdPercentage (options (fst w)))))) \<and>
           (warmUp (fst w) \<longrightarrow> snd w2 = snd w \<and> resetTimeout (fst w2) = resetTimeout (fst w))"
proof -
  obtain w1 where w1: "step Fire w = Inr w1" using step_total[OF assms] by blast
  have ne1: "buckets (status (fst w1)) \<noteq> []" using step_frame(4)[OF w1] .
  obtain w2 where w2: "step (Fail now) w1 = Inr w2" using step_total[OF ne1] by blast
  note f1 = step_Fire[OF w1]
  note f2 = step_Fail[OF w2]
  have "follows w w2 1 0 1 0" using follows_trans[OF f1(1) f2(1)] by simp
  moreover have "state (fst w2) = (if trips (fst w1) then Open else state (fst w))"
    using f2(2) f1(2) by simp
  moreover have "trips (fst w1) =
             (\<not> warmUp (fst w) \<and>
              (state (fst w) = HalfOpen \<or>
               (volumeThreshold (options (fst w)) \<le> int (Suc (aggregate fires (status (fst w)))) \<and>
                js_greater (errorRate (Suc (aggregate failures (status (fst w))))
                                      (Suc (aggregate fires (status (fst w)))))
                  (errorThresholdPercentage (options (fst w))))))"
    using f1(1) f1(2) by (auto simp: trips_def follows_def)
  moreover have "warmUp (fst w) \<longrightarrow> snd w2 = snd w \<and> resetTimeout (fst w2) = resetTimeout (fst w)"
    using f2(3) f1 by (auto simp: follows_def)
  ultimately show ?thesis using w1 w2 by blast
qed

text \<open>
  The guard of \<open>fail\<close> at the \<open>k\<close>-th of a row of failing requests that starts at \<open>f\<close>
  failures and \<open>i\<close> invocations.
\<close>

lemma ex_shift: "(\<exists>k\<in>{1..Suc n}. P k) \<longleftrightarrow> P 1 \<or> (\<exists>k\<in>{1..n}. P (Suc k))"
proof
  assume "\<exists>k\<in>{1..Suc n}. P k"
  then obtain k where k: "1 \<le> k" "k \<le> Suc n" "P k" by auto
  show "P 1 \<or> (\<exists>k\<in>{1..n}. P (Suc k))"
  proof (cases "k = 1")
    case True
    then show ?thesis using k by simp
  next
    case False
    then obtain j where "k = Suc j" "1 \<le> j" "j \<le> n" using k by (cases k) auto
    then show ?thesis using k by auto
  qed
next
  assume "P 1 \<or> (\<exists>k\<in>{1..n}. P (Suc k))"
  then show "\<exists>k\<in>{1..Suc n}. P k" by (auto intro: bexI[of _ 1])
qed

lemma failing_run:
  assumes "buckets (status (fst w)) \<noteq> []" and "\<not> warmUp (fst w)"
  shows "\<exists>w'. run (failing n now) w = Inr w' \<and> follows w w' n 0 n 0 \<and>
           state (fst w') =
             (if (0 < n \<and> state (fst w) = HalfOpen) \<or>
                 (\<exists>k\<in>{1..n}.
                    passes (options (fst w)) (aggregate failures (status (fst w)) + k)
                      (aggregate fires (status (fst w)) + k))
              then Open else state (fst w))"
  using assms
proof (induction n arbitrary: w)
  case 0
  then show ?case by (simp add: failing_def follows_def)
next
  case (Suc n)
  let ?f = "aggregate failures (status (fst w))"
  let ?i = "aggregate fires (status (fst w))"
  from failing_round[OF Suc.prems(1), of now] obtain w1 w2
    where w1: "step Fire w = Inr w1" and w2: "step (Fail now) w1 = Inr w2"
      and fo: "follows w w2 1 0 1 0"
      and st: "state (fst w2) = (if trips (fst w1) then Open else state (fst w))"
      and tr: "trips (fst w1) =
             (\<not> warmUp (fst w) \<and>
              (state (fst w) = HalfOpen \<or>
               (volumeThreshold (options (fst w)) \<le> int (Suc ?i) \<and>
                js_greater (errorRate (Suc ?f) (Suc ?i))
                  (errorThresholdPercentage (options (fst w))))))"
    by blast
  have tr': "trips (fst w1) = (state (fst w) = HalfOpen \<or> passes (options (fst w)) (?f + 1) (?i + 1))"
    using tr Suc.prems(2) by (simp add: passes_def)
  have p2: "buckets (status (fst w2)) \<noteq> []" "\<not> warmUp (fst w2)"
    using fo Suc.prems by (auto simp: follows_def)
  have o2: "options (fst w2) = options (fst w)"
    and i2: "aggregate fires (status (fst w2)) = Suc ?i"
    and f2: "aggregate failures (status (fst w2)) = Suc ?f"
    using fo by (simp_all add: follows_def)
  from Suc.IH[OF p2] obtain w' where r: "run (failing n now) w2 = Inr w'"
    and fo': "follows w2 w' n 0 n 0"
    and st': "state (fst w') =
             (if (0 < n \<and> state (fst w2) = HalfOpen) \<or>
                 (\<exists>k\<in>{1..n}. passes (options (fst w)) (Suc ?f + k) (Suc ?i + k))
              then Open else state (fst w2))"
    by (auto simp: o2 i2 f2)
  have run: "run (failing (Suc n) now) w = Inr w'"
    using w1 w2 r by (simp add: failing_Suc bind_r_def)
  have fol: "follows w w' (Suc n) 0 (Suc n) 0"
    using follows_trans[OF fo fo'] by simp
  have sh: "(\<exists>k\<in>{1..Suc n}. passes (options (fst w)) (?f + k) (?i + k)) \<longleftrightarrow>
            passes (options (fst w)) (?f + 1) (?i + 1) \<or>
            (\<exists>k\<in>{1..n}. passes (options (fst w)) (Suc ?f + k) (Suc ?i + k))"
    using ex_shift[of n "\<lambda>k. passes (options (fst w)) (?f + k) (?i + k)"] by simp
  have "state (fst w') =
             (if state (fst w) = HalfOpen \<or>
                 (\<exists>k\<in>{1..Suc n}. passes (options (fst w)) (?f + k) (?i + k))
              then Open else state (fst w))"
    unfolding sh using st st' tr' by auto
  then show ?case using run fol by auto
qed

lemma passes_full:
  "0 < k \<Longrightarrow> passes opts k k \<longleftrightarrow> volumeThreshold opts \<le> int k \<and> errorThresholdPercentage opts < 100"
  by (simp add: passes_def errorRate_full js_greater_def)

text \<open>
  C4, as the claim states it, fails. With an error threshold of 100 percent and a volume
  threshold of 3, four requests are counted and all four fail: the snapshot has four
  invocations and four failures, and the circuit is still closed, because an error rate of
  100 does not exceed the threshold.
\<close>

theorem full_failure_rate_at_threshold_100:
  "stateOf (bind_r strictBreaker (run (failing 4 1))) = Some Closed \<and>
   countsOf (bind_r strictBreaker (run (failing 4 1))) = Some (4, 0, 4, 0)"
  by code_simp


text \<open>
  C4, amended. From the closed state with the warm-up inactive, along every sequence of
  events after each of which the invocation count of the snapshot is below the volume
  threshold, the circuit stays closed at every step, whatever the error rate is. From an
  empty window, \<open>volumeThreshold + 1\<close> requests that all fail leave the snapshot with that
  many invocations and failures and the circuit open, provided the error threshold is
  below 100 percent; with a threshold of 100 or more the circuit stays closed.
\<close>

theorem volume_threshold_guard:
  assumes "state cb = Closed" and "\<not> warmUp cb" and "counts (cb, rt) = Some (f, s, i, t)"
  shows "(staysBelow es (cb, rt) \<longrightarrow>
            (\<forall>k. \<exists>w'. run (take k es) (cb, rt) = Inr w' \<and> state (fst w') = Closed)) \<and>
         (f = 0 \<and> i = 0 \<longrightarrow>
            (\<exists>w'. run (failing (nat (volumeThreshold (options cb)) + 1) now) (cb, rt) = Inr w' \<and>
                  counts w' = Some (nat (volumeThreshold (options cb)) + 1, s,
                                    nat (volumeThreshold (options cb)) + 1, t) \<and>
                  state (fst w') =
                    (if errorThresholdPercentage (options cb) < 100 then Open else Closed)))"
proof (intro conjI impI allI)
  fix k
  assume "staysBelow es (cb, rt)"
  then have "staysBelow (take k es) (cb, rt)" by (rule staysBelow_take)
  from staysBelow_closed[OF this] assms(1)
  show "\<exists>w'. run (take k es) (cb, rt) = Inr w' \<and> state (fst w') = Closed" by simp
next
  let ?n = "nat (volumeThreshold (options cb)) + 1"
  assume fresh: "f = 0 \<and> i = 0"
  have ne: "buckets (status (fst (cb, rt))) \<noteq> []"
    and ag: "aggregate fires (status cb) = 0" "aggregate failures (status cb) = 0"
    using assms(3) fresh by (simp_all add: counts_Some_iff)
  from failing_run[OF ne, of ?n now] assms(1,2) ag
  obtain w' where r: "run (failing ?n now) (cb, rt) = Inr w'"
    and fo: "follows (cb, rt) w' ?n 0 ?n 0"
    and st: "state (fst w') = (if \<exists>k\<in>{1..?n}. passes (options cb) k k then Open else Closed)"
    by auto
  have "(\<exists>k\<in>{1..?n}. passes (options cb) k k) \<longleftrightarrow> errorThresholdPercentage (options cb) < 100"
  proof
    assume "\<exists>k\<in>{1..?n}. passes (options cb) k k"
    then show "errorThresholdPercentage (options cb) < 100" by (auto simp: passes_full)
  next
    assume "errorThresholdPercentage (options cb) < 100"
    then have "passes (options cb) ?n ?n" by (simp add: passes_full)
    then show "\<exists>k\<in>{1..?n}. passes (options cb) k k" by (auto intro: bexI[of _ ?n])
  qed
  with st have st': "state (fst w') =
      (if errorThresholdPercentage (options cb) < 100 then Open else Closed)" by simp
  from counts_follows[OF fo assms(3)] fresh have "counts w' = Some (?n, s, ?n, t)" by simp
  then show "\<exists>w'. run (failing ?n now) (cb, rt) = Inr w' \<and>
          counts w' = Some (?n, s, ?n, t) \<and>
          state (fst w') = (if errorThresholdPercentage (options cb) < 100 then Open else Closed)"
    using r st' by blast
qed

lemma empty_staysBelow: "staysBelow [Fire, Fail 1, Fire, Fail 2] (emptyBreaker, emptyRuntime)"
  by code_simp

theorem volume_threshold_guard_witness:
  "state emptyBreaker = Closed \<and> \<not> warmUp emptyBreaker \<and>
   counts (emptyBreaker, emptyRuntime) = Some (0, 0, 0, 0) \<and>
   staysBelow [Fire, Fail 1, Fire, Fail 2] (emptyBreaker, emptyRuntime) \<and>
   (\<exists>w'. run [Fire, Fail 1, Fire, Fail 2] (emptyBreaker, emptyRuntime) = Inr w' \<and>
         state (fst w') = Closed) \<and>
   (\<exists>w'. run (failing 4 5) (emptyBreaker, emptyRuntime) = Inr w' \<and>
         counts w' = Some (4, 0, 4, 0) \<and> state (fst w') = Open)"
proof -
  have h1: "state emptyBreaker = Closed" and h2: "\<not> warmUp emptyBreaker"
    by (simp_all add: emptyBreaker_def)
  have vt: "nat (volumeThreshold (options emptyBreaker)) + 1 = 4"
    and thr: "errorThresholdPercentage (options emptyBreaker) < 100"
    by (simp_all add: emptyBreaker_def defaultOptions_def)
  from volume_threshold_guard[OF h1 h2 empty_counts, of "[Fire, Fail 1, Fire, Fail 2]" 5]
  have a: "\<forall>k. \<exists>w'. run (take k [Fire, Fail 1, Fire, Fail 2]) (emptyBreaker, emptyRuntime) = Inr w' \<and>
             state (fst w') = Closed"
    and b: "\<exists>w'. run (failing 4 5) (emptyBreaker, emptyRuntime) = Inr w' \<and>
         counts w' = Some (4, 0, 4, 0) \<and> state (fst w') = Open"
    using empty_staysBelow vt thr by auto
  from a[rule_format, of 4] show ?thesis using h1 h2 empty_counts empty_staysBelow b by simp
qed


subsection \<open>The warm-up\<close>

lemma step_Success_rt:
  assumes "step Success w = Inr w'" and "state (fst w) \<noteq> HalfOpen"
  shows "snd w' = snd w"
  using assms by (cases w) (auto simp: step_def success_def bind_r_def split: sum.splits)

lemma warm_up_absorbs:
  assumes "buckets (status (fst w)) \<noteq> []" and "warmUp (fst w)" and "state (fst w) = Closed"
  shows "\<exists>w'. run es w = Inr w' \<and> state (fst w') = Closed \<and> warmUp (fst w') \<and>
           snd w' = snd w \<and> warmupTimeout (fst w') = warmupTimeout (fst w) \<and>
           options (fst w') = options (fst w) \<and> buckets (status (fst w')) \<noteq> []"
  using assms
proof (induction es arbitrary: w)
  case Nil
  then show ?case by simp
next
  case (Cons e es)
  obtain w1 where w1: "step e w = Inr w1" using step_total[OF Cons.prems(1)] by blast
  note fr = step_frame[OF w1]
  have "state (fst w1) = Closed \<and> snd w1 = snd w"
  proof (cases e)
    case Fire
    then show ?thesis using step_Fire[of w w1] w1 Cons.prems(3) by simp
  next
    case (Fail now)
    with w1 have s: "step (Fail now) w = Inr w1" by simp
    have "\<not> trips (fst w)" using Cons.prems(2) by (simp add: trips_def)
    then show ?thesis using step_Fail(2,3)[OF s] Cons.prems(2,3) by simp
  next
    case Success
    then show ?thesis
      using step_Success(2)[of w w1] step_Success_rt[of w w1] w1 Cons.prems(3) by simp
  next
    case Rotate
    then show ?thesis using w1 Cons.prems(3) by (cases w) (auto simp: step_def)
  qed
  with Cons.IH[of w1] fr Cons.prems(2) show ?case by (simp add: w1 bind_r_def)
qed

lemma warm_up_failing:
  assumes "buckets (status (fst w)) \<noteq> []" and "warmUp (fst w)"
  shows "\<exists>w'. run (failing n now) w = Inr w' \<and> follows w w' n 0 n 0 \<and>
           state (fst w') = state (fst w) \<and> snd w' = snd w"
  using assms
proof (induction n arbitrary: w)
  case 0
  then show ?case by (simp add: failing_def follows_def)
next
  case (Suc n)
  from failing_round[OF Suc.prems(1), of now] Suc.prems(2) obtain w1 w2
    where w1: "step Fire w = Inr w1" and w2: "step (Fail now) w1 = Inr w2"
      and fo: "follows w w2 1 0 1 0"
      and st: "state (fst w2) = state (fst w)" and rt: "snd w2 = snd w"
    by auto
  have p2: "buckets (status (fst w2)) \<noteq> []" "warmUp (fst w2)"
    using fo Suc.prems by (auto simp: follows_def)
  from Suc.IH[OF p2] obtain w' where r: "run (failing n now) w2 = Inr w'"
    and fo': "follows w2 w' n 0 n 0"
    and st': "state (fst w') = state (fst w2)" and rt': "snd w' = snd w2"
    by blast
  have "run (failing (Suc n) now) w = Inr w'"
    using w1 w2 r by (simp add: failing_Suc bind_r_def)
  moreover have "follows w w' (Suc n) 0 (Suc n) 0"
    using follows_trans[OF fo fo'] by simp
  ultimately show ?case using st st' rt rt' by auto
qed

lemma timerDelay_int:
  "1 \<le> d \<Longrightarrow> d \<le> 2147483647 \<Longrightarrow> timerDelay (Finite (of_int d)) = d"
  by (simp add: timerDelay_def)

lemma constructed_with_warm_up:
  assumes "CircuitBreakerMiddleware_new opts t0 rt0 = Inr w0" and "allowWarmUp opts"
  shows "warmUp (fst w0) \<and> state (fst w0) = Closed \<and> options (fst w0) = opts \<and>
         buckets (status (fst w0)) \<noteq> [] \<and>
         (\<exists>h. warmupTimeout (fst w0) = Some h \<and>
              map_of (pending (snd w0)) h =
                Some \<lparr>callback = WarmUpExpired,
                      dueAt = t0 + timerDelay (Finite (of_int (rollingCountTimeout_O opts))),
                      every = None\<rparr>)"
proof -
  let ?so = "\<lparr>rollingCountBuckets = rollingCountBuckets_O opts,
              rollingCountTimeout = rollingCountTimeout_O opts,
              rollingPercentilesEnabled = Some (rollingPercentilesEnabled_O opts)\<rparr>"
  from assms(1) obtain s rt1 where n: "Status_new ?so t0 rt0 = Inr (s, rt1)"
    by (cases "Status_new ?so t0 rt0") (auto simp: CircuitBreakerMiddleware_new_def bind_r_def)
  from assms(1) n obtain sn where sn: "stats s = Inr sn"
    by (cases "stats s")
       (auto simp: CircuitBreakerMiddleware_new_def bind_r_def Let_def split: prod.splits)
  have ne: "buckets s \<noteq> []" using sn stats_Inr_iff by blast
  from assms n sn show ?thesis
    using ne
    by (auto simp: CircuitBreakerMiddleware_new_def bind_r_def Let_def setTimeout_def
        register_def)
qed

lemma serve_WarmUpExpired:
  assumes "map_of (pending rt) h = Some \<lparr>callback = WarmUpExpired, dueAt = due, every = None\<rparr>"
  shows "serve h now (cb, rt) =
           (if now < due then None else Some (Inr (cb\<lparr>warmUp := False\<rparr>, clearTimer h rt)))"
  using assms by (simp add: serve_def fire_def)

text \<open>
  C7, as the claim states it, fails. A breaker with warm-up and an error threshold of 100
  percent is constructed, four requests fail during the warm-up, the window rotates and
  the warm-up timer is served when it is due, and the same four requests fail again: the
  circuit is still closed. The same happens with the default error threshold and a volume
  threshold of 3 when the pattern is a single failing request. The lists give the warm-up
  flag and the state before the timer, after it, and after the second run of the pattern.
\<close>

theorem same_pattern_stays_closed:
  "replayed (defaultOptions\<lparr>allowWarmUp := True, errorThresholdPercentage := 100\<rparr>) 4 =
     [(True, Closed), (False, Closed), (False, Closed)] \<and>
   replayed (defaultOptions\<lparr>allowWarmUp := True, volumeThreshold := 3\<rparr>) 1 =
     [(True, Closed), (False, Closed), (False, Closed)]"
  by code_simp

text \<open>
  C7, amended. The constructor of a breaker with \<open>allowWarmUp\<close> sets the warm-up flag and
  registers a one-shot timer that is due \<open>rollingCountTimeout\<close> ms after the construction
  (the delay as the runtime uses it). While the flag is set, no sequence of recorded
  events of any length and any error rate moves the circuit: after it the state is closed
  and the flag is still set. The timer cannot be served before it is due; served when it
  is due or later it clears the flag and leaves the state and the counts as they are.
  After that a pattern of \<open>n\<close> failing requests opens the circuit exactly when one of its
  failures passes the guard of \<open>fail\<close>, that is, when at that failure the invocation
  count of the snapshot has reached the volume threshold and the error rate exceeds the
  error threshold; otherwise the circuit stays closed.
\<close>

theorem warm_up_grace:
  assumes "CircuitBreakerMiddleware_new opts t0 rt0 = Inr w0" and "allowWarmUp opts"
  shows "warmUp (fst w0) \<and> state (fst w0) = Closed \<and>
         (\<exists>h. warmupTimeout (fst w0) = Some h \<and>
            map_of (pending (snd w0)) h =
              Some \<lparr>callback = WarmUpExpired,
                    dueAt = t0 + timerDelay (Finite (of_int (rollingCountTimeout_O opts))),
                    every = None\<rparr> \<and>
            (1 \<le> rollingCountTimeout_O opts \<and> rollingCountTimeout_O opts \<le> 2147483647 \<longrightarrow>
               timerDelay (Finite (of_int (rollingCountTimeout_O opts))) =
                 rollingCountTimeout_O opts) \<and>
            (\<forall>es. \<exists>w1 w2 f s i t.
               run es w0 = Inr w1 \<and> warmUp (fst w1) \<and> state (fst w1) = Closed \<and>
               counts w1 = Some (f, s, i, t) \<and>
               (\<forall>t1. serve h t1 w1 =
                  (if t1 < t0 + timerDelay (Finite (of_int (rollingCountTimeout_O opts)))
                   then None else Some (Inr w2))) \<and>
               \<not> warmUp (fst w2) \<and> state (fst w2) = Closed \<and>
               counts w2 = Some (f, s, i, t) \<and>
               (\<forall>n now. \<exists>w3.
                  run (failing n now) w2 = Inr w3 \<and>
                  counts w3 = Some (f + n, s, i + n, t) \<and>
                  state (fst w3) =
                    (if \<exists>k\<in>{1..n}. passes opts (f + k) (i + k) then Open else Closed))))"
proof -
  note c = constructed_with_warm_up[OF assms]
  then obtain h where h: "warmupTimeout (fst w0) = Some h"
    and tm: "map_of (pending (snd w0)) h =
               Some \<lparr>callback = WarmUpExpired,
                     dueAt = t0 + timerDelay (Finite (of_int (rollingCountTimeout_O opts))),
                     every = None\<rparr>"
    by blast
  let ?due = "t0 + timerDelay (Finite (of_int (rollingCountTimeout_O opts)))"
  have runs: "\<exists>w1 w2 f s i t.
               run es w0 = Inr w1 \<and> warmUp (fst w1) \<and> state (fst w1) = Closed \<and>
               counts w1 = Some (f, s, i, t) \<and>
               (\<forall>t1. serve h t1 w1 = (if t1 < ?due then None else Some (Inr w2))) \<and>
               \<not> warmUp (fst w2) \<and> state (fst w2) = Closed \<and>
               counts w2 = Some (f, s, i, t) \<and>
               (\<forall>n now. \<exists>w3.
                  run (failing n now) w2 = Inr w3 \<and>
                  counts w3 = Some (f + n, s, i + n, t) \<and>
                  state (fst w3) =
                    (if \<exists>k\<in>{1..n}. passes opts (f + k) (i + k) then Open else Closed))" for es
  proof -
    from warm_up_absorbs[of w0 es] c
    obtain w1 where r1: "run es w0 = Inr w1" and st1: "state (fst w1) = Closed"
      and wu1: "warmUp (fst w1)" and rt1: "snd w1 = snd w0"
      and o1: "options (fst w1) = opts" and ne1: "buckets (status (fst w1)) \<noteq> []"
      by auto
    obtain cb1 where w1: "w1 = (cb1, snd w0)" using rt1 by (cases w1) simp
    let ?f = "aggregate failures (status cb1)"
    let ?s = "aggregate successes (status cb1)"
    let ?i = "aggregate fires (status cb1)"
    let ?t = "aggregate timeouts (status cb1)"
    let ?w2 = "(cb1\<lparr>warmUp := False\<rparr>, clearTimer h (snd w0))"
    have c1: "counts w1 = Some (?f, ?s, ?i, ?t)"
      using ne1 by (simp add: counts_Some_iff w1)
    have c2: "counts ?w2 = Some (?f, ?s, ?i, ?t)"
      using ne1 by (simp add: counts_Some_iff w1)
    have sv: "serve h t1 w1 = (if t1 < ?due then None else Some (Inr ?w2))" for t1
      using serve_WarmUpExpired[OF tm, of t1 cb1] by (simp add: w1)
    have after: "\<exists>w3. run (failing n now) ?w2 = Inr w3 \<and>
                  counts w3 = Some (?f + n, ?s, ?i + n, ?t) \<and>
                  state (fst w3) =
                    (if \<exists>k\<in>{1..n}. passes opts (?f + k) (?i + k) then Open else Closed)"
      for n now
    proof -
      have p: "buckets (status (fst ?w2)) \<noteq> []" "\<not> warmUp (fst ?w2)"
        using ne1 by (simp_all add: w1)
      from failing_run[OF p, of n now] st1 o1
      obtain w3 where r3: "run (failing n now) ?w2 = Inr w3"
        and fo: "follows ?w2 w3 n 0 n 0"
        and st3: "state (fst w3) =
                    (if \<exists>k\<in>{1..n}. passes opts (?f + k) (?i + k) then Open else Closed)"
        by (auto simp: w1)
      from counts_follows[OF fo c2] have "counts w3 = Some (?f + n, ?s, ?i + n, ?t)" by simp
      then show ?thesis using r3 st3 by blast
    qed
    show ?thesis
      using r1 wu1 st1 c1 sv c2 after
      by (intro exI[of _ w1] exI[of _ ?w2] exI[of _ ?f] exI[of _ ?s] exI[of _ ?i] exI[of _ ?t])
         (simp add: w1)
  qed
  have "1 \<le> rollingCountTimeout_O opts \<and> rollingCountTimeout_O opts \<le> 2147483647 \<longrightarrow>
          timerDelay (Finite (of_int (rollingCountTimeout_O opts))) = rollingCountTimeout_O opts"
    by (simp add: timerDelay_int)
  then show ?thesis using c h tm runs by blast
qed

lemma warm_counts: "counts (warmBreaker, warmRuntime) = Some (0, 0, 0, 0)"
  by code_simp

theorem warm_up_grace_witness:
  "CircuitBreakerMiddleware_new
     (defaultOptions\<lparr>allowWarmUp := True, volumeThreshold := 3\<rparr>) 0 newRuntime =
     Inr (warmBreaker, warmRuntime) \<and>
   allowWarmUp (defaultOptions\<lparr>allowWarmUp := True, volumeThreshold := 3\<rparr>) \<and>
   warmUp warmBreaker \<and> state warmBreaker = Closed \<and>
   warmupTimeout warmBreaker = Some 1 \<and>
   map_of (pending warmRuntime) 1 =
     Some \<lparr>callback = WarmUpExpired, dueAt = 10000, every = None\<rparr> \<and>
   (\<exists>w1 w2 w3.
      run (failing 7 2) (warmBreaker, warmRuntime) = Inr w1 \<and> warmUp (fst w1) \<and>
      state (fst w1) = Closed \<and> counts w1 = Some (7, 0, 7, 0) \<and>
      serve 1 9999 w1 = None \<and> serve 1 10000 w1 = Some (Inr w2) \<and>
      \<not> warmUp (fst w2) \<and> state (fst w2) = Closed \<and>
      run (failing 7 10001) w2 = Inr w3 \<and> counts w3 = Some (14, 0, 14, 0) \<and>
      state (fst w3) = Open)"
proof -
  let ?opts = "defaultOptions\<lparr>allowWarmUp := True, volumeThreshold := 3\<rparr>"
  have a: "allowWarmUp ?opts" by simp
  have d: "timerDelay (Finite (of_int (rollingCountTimeout_O ?opts))) = 10000"
    by (simp add: defaultOptions_def timerDelay_def)
  have wt: "warmupTimeout (fst (warmBreaker, warmRuntime)) = Some 1"
    by (simp add: warmBreaker_def)
  have ne: "buckets (status (fst (warmBreaker, warmRuntime))) \<noteq> []"
    using warm_counts by (simp add: counts_Some_iff)
  have wu: "warmUp (fst (warmBreaker, warmRuntime))" by (simp add: warmBreaker_def)
  from warm_up_grace[OF constructed_warm a] wt d
  have g: "warmUp warmBreaker \<and> state warmBreaker = Closed \<and>
      map_of (pending warmRuntime) 1 =
        Some \<lparr>callback = WarmUpExpired, dueAt = 10000, every = None\<rparr>"
    and r: "\<forall>es. \<exists>w1 w2 f s i t.
               run es (warmBreaker, warmRuntime) = Inr w1 \<and> warmUp (fst w1) \<and>
               state (fst w1) = Closed \<and> counts w1 = Some (f, s, i, t) \<and>
               (\<forall>t1. serve 1 t1 w1 = (if t1 < 10000 then None else Some (Inr w2))) \<and>
               \<not> warmUp (fst w2) \<and> state (fst w2) = Closed \<and>
               counts w2 = Some (f, s, i, t) \<and>
               (\<forall>n now. \<exists>w3.
                  run (failing n now) w2 = Inr w3 \<and>
                  counts w3 = Some (f + n, s, i + n, t) \<and>
                  state (fst w3) =
                    (if \<exists>k\<in>{1..n}. passes ?opts (f + k) (i + k) then Open else Closed))"
    by auto
  from r[rule_format, of "failing 7 2"]
  obtain w1 w2 f s i t where r1: "run (failing 7 2) (warmBreaker, warmRuntime) = Inr w1"
    and p1: "warmUp (fst w1)" "state (fst w1) = Closed"
    and c1: "counts w1 = Some (f, s, i, t)"
    and sv: "\<forall>t1. serve 1 t1 w1 = (if t1 < 10000 then None else Some (Inr w2))"
    and p2: "\<not> warmUp (fst w2)" "state (fst w2) = Closed"
    and after: "\<forall>n now. \<exists>w3.
                  run (failing n now) w2 = Inr w3 \<and>
                  counts w3 = Some (f + n, s, i + n, t) \<and>
                  state (fst w3) =
                    (if \<exists>k\<in>{1..n}. passes ?opts (f + k) (i + k) then Open else Closed)"
    by blast
  from warm_up_failing[OF ne wu, of 7 2] r1
  have "follows (warmBreaker, warmRuntime) w1 7 0 7 0" by simp
  from counts_follows[OF this warm_counts] c1
  have fi: "f = 7" "s = 0" "i = 7" "t = 0" by simp_all
  from after[rule_format, of 7 10001]
  obtain w3 where r3: "run (failing 7 10001) w2 = Inr w3"
    and c3: "counts w3 = Some (14, 0, 14, 0)"
    and st3: "state (fst w3) =
                (if \<exists>k\<in>{1..7}. passes ?opts (7 + k) (7 + k) then Open else Closed)"
    by (auto simp: fi)
  have "passes ?opts (7 + 1) (7 + 1)" by (simp add: passes_full defaultOptions_def)
  then have "\<exists>k\<in>{1..7::nat}. passes ?opts (7 + k) (7 + k)" by (intro bexI[of _ 1]) simp_all
  then have o3: "state (fst w3) = Open" using st3 by simp
  have s1: "serve 1 9999 w1 = None" and s2: "serve 1 10000 w1 = Some (Inr w2)"
    using sv by simp_all
  from r1 p1 c1 s1 s2 p2 r3 c3 o3
  have "\<exists>w1 w2 w3.
      run (failing 7 2) (warmBreaker, warmRuntime) = Inr w1 \<and> warmUp (fst w1) \<and>
      state (fst w1) = Closed \<and> counts w1 = Some (7, 0, 7, 0) \<and>
      serve 1 9999 w1 = None \<and> serve 1 10000 w1 = Some (Inr w2) \<and>
      \<not> warmUp (fst w2) \<and> state (fst w2) = Closed \<and>
      run (failing 7 10001) w2 = Inr w3 \<and> counts w3 = Some (14, 0, 14, 0) \<and>
      state (fst w3) = Open"
    by (intro exI[of _ w1] exI[of _ w2] exI[of _ w3]) (simp add: fi)
  then show ?thesis using constructed_warm a g wt by simp
qed

section \<open>The snapshot and the store\<close>

subsection \<open>Every write of the getter goes to what it allocated\<close>

lemma extends_length:
  assumes "extends st st'"
  shows "length (objects st) \<le> length (objects st')" "length (arrays st) \<le> length (arrays st')"
    "length (dicts st) \<le> length (dicts st')"
  using assms unfolding extends_def
  by (metis length_take min.cobounded1 min_def nat_le_linear take_all)+

lemma extends_nth:
  assumes "extends st st'"
  shows "r < length (objects st) \<Longrightarrow> objects st' ! r = objects st ! r"
    "a < length (arrays st) \<Longrightarrow> arrays st' ! a = arrays st ! a"
    "d < length (dicts st) \<Longrightarrow> dicts st' ! d = dicts st ! d"
  using assms unfolding extends_def by (metis nth_take)+

lemma extends_refl: "extends st st"
  by (simp add: extends_def)

lemma extends_bucketOf:
  "extends st st' \<Longrightarrow> allocated st r \<Longrightarrow> bucketOf st' r = bucketOf st r"
  by (simp add: bucketOf_def allocated_def extends_nth Let_def)

lemma extends_allocated:
  "extends st st' \<Longrightarrow> allocated st r \<Longrightarrow> allocated st' r"
  using extends_length[of st st'] by (auto simp: allocated_def extends_nth)


lemma createBucket_h_fresh:
  assumes "createBucket_h st0 = (acc, st)"
  shows "fresh st0 st acc" and "statsOf st acc = asStats createBucket"
  using assms
  by (auto simp: createBucket_h_def fresh_def extends_def allocated_def statsOf_def
      asStats_def createBucket_def nth_append)

lemma accumulate_h_fresh:
  assumes "fresh st0 st acc" and "allocated st0 b"
  shows "fresh st0 (accumulate_h acc st b) acc"
    and "statsOf (accumulate_h acc st b) acc = accumulate (statsOf st acc) (bucketOf st0 b)"
proof -
  have ext: "extends st0 st" and al: "allocated st acc"
    and lo: "length (objects st0) \<le> acc"
    and la: "length (arrays st0) \<le> latencyTimes_o (objects st ! acc)"
    and ld: "length (dicts st0) \<le> percentiles_o (objects st ! acc)"
    using assms(1) by (simp_all add: fresh_def)
  note len = extends_length[OF ext]
  have b: "b < length (objects st0)" "latencyTimes_o (objects st0 ! b) < length (arrays st0)"
    using assms(2) by (simp_all add: allocated_def)
  have ob: "objects st ! b = objects st0 ! b" using extends_nth(1)[OF ext b(1)] .
  have ab: "arrays st ! latencyTimes_o (objects st0 ! b) = arrays st0 ! latencyTimes_o (objects st0 ! b)"
    using extends_nth(2)[OF ext b(2)] .
  have acc: "acc < length (objects st)" "latencyTimes_o (objects st ! acc) < length (arrays st)"
    "percentiles_o (objects st ! acc) < length (dicts st)"
    using al by (simp_all add: allocated_def)
  show "fresh st0 (accumulate_h acc st b) acc"
    using ext lo ld len acc
    by (simp add: fresh_def accumulate_h_def Let_def extends_def allocated_def)
  show "statsOf (accumulate_h acc st b) acc = accumulate (statsOf st acc) (bucketOf st0 b)"
    using acc ob ab
    by (simp add: statsOf_def accumulate_h_def accumulate_def bucketOf_def Let_def nth_append)
qed

lemma foldl_accumulate_h_fresh:
  assumes "fresh st0 st acc" and "\<forall>b\<in>set bs. allocated st0 b"
  shows "fresh st0 (foldl (accumulate_h acc) st bs) acc \<and>
         statsOf (foldl (accumulate_h acc) st bs) acc =
           foldl accumulate (statsOf st acc) (map (bucketOf st0) bs)"
  using assms
proof (induction bs arbitrary: st)
  case Nil
  then show ?case by simp
next
  case (Cons b bs)
  have b: "allocated st0 b" using Cons.prems(2) by simp
  note step = accumulate_h_fresh[OF Cons.prems(1) b]
  from Cons.IH[OF step(1)] Cons.prems(2) show ?case by (simp add: step(2))
qed

lemma sort_h_fresh:
  assumes "fresh st0 st acc"
  shows "fresh st0 (sort_h acc st) acc"
    and "statsOf (sort_h acc st) acc =
           (statsOf st acc)\<lparr>latencyTimes := sort (latencyTimes (statsOf st acc))\<rparr>"
  using assms
  by (auto simp: fresh_def sort_h_def Let_def extends_def allocated_def statsOf_def)

lemma mean_h_fresh:
  assumes "fresh st0 st acc"
  shows "fresh st0 (mean_h acc st) acc"
    and "statsOf (mean_h acc st) acc =
           (statsOf st acc)\<lparr>latencyMean :=
              Some (if length (latencyTimes (statsOf st acc)) > 0
                    then js_divide (of_int (foldl (+) 0 (latencyTimes (statsOf st acc))))
                           (of_nat (length (latencyTimes (statsOf st acc))))
                    else Finite 0)\<rparr>"
  using assms
  by (auto simp: fresh_def mean_h_def Let_def extends_def allocated_def statsOf_def)

lemma setPercentile_h_fresh:
  assumes "fresh st0 st acc"
  shows "fresh st0 (setPercentile_h acc st p) acc"
    and "statsOf (setPercentile_h acc st p) acc =
           setPercentile (latencyTimes (statsOf st acc)) (statsOf st acc) p"
  using assms
  by (auto simp: fresh_def setPercentile_h_def setPercentile_def Let_def extends_def
      allocated_def statsOf_def)

lemma zeroPercentile_h_fresh:
  assumes "fresh st0 st acc"
  shows "fresh st0 (zeroPercentile_h acc st p) acc"
    and "statsOf (zeroPercentile_h acc st p) acc = zeroPercentile (statsOf st acc) p"
  using assms
  by (auto simp: fresh_def zeroPercentile_h_def zeroPercentile_def Let_def extends_def
      allocated_def statsOf_def)

lemma foldl_setPercentile_h_fresh:
  assumes "fresh st0 st acc"
  shows "fresh st0 (foldl (setPercentile_h acc) st ps) acc \<and>
         statsOf (foldl (setPercentile_h acc) st ps) acc =
           foldl (setPercentile (latencyTimes (statsOf st acc))) (statsOf st acc) ps"
  using assms
proof (induction ps arbitrary: st)
  case Nil
  then show ?case by simp
next
  case (Cons p ps)
  note step = setPercentile_h_fresh[OF Cons.prems, of p]
  have "latencyTimes (statsOf (setPercentile_h acc st p) acc) = latencyTimes (statsOf st acc)"
    by (simp add: step(2) setPercentile_def)
  with Cons.IH[OF step(1)] show ?case by (simp add: step(2))
qed

lemma foldl_zeroPercentile_h_fresh:
  assumes "fresh st0 st acc"
  shows "fresh st0 (foldl (zeroPercentile_h acc) st ps) acc \<and>
         statsOf (foldl (zeroPercentile_h acc) st ps) acc =
           foldl zeroPercentile (statsOf st acc) ps"
  using assms
proof (induction ps arbitrary: st)
  case Nil
  then show ?case by simp
next
  case (Cons p ps)
  note step = zeroPercentile_h_fresh[OF Cons.prems, of p]
  from Cons.IH[OF step(1)] show ?case by (simp add: step(2))
qed

lemma stats_h_refines:
  assumes "\<forall>b\<in>set bs. allocated st0 b"
    and "buckets s = map (bucketOf st0) bs"
    and "percentiles_S s = ps" and "rollingPercentilesEnabled_S s = en"
  shows "case stats_h bs ps en st0 of
           Inl e \<Rightarrow> stats s = Inl e
         | Inr (r, st') \<Rightarrow> stats s = Inr (statsOf st' r) \<and> extends st0 st'"
proof -
  obtain acc st1 where c: "createBucket_h st0 = (acc, st1)" by (cases "createBucket_h st0")
  note f1 = createBucket_h_fresh[OF c]
  define st2 where "st2 = foldl (accumulate_h acc) st1 bs"
  have f2: "fresh st0 st2 acc"
    and v2: "statsOf st2 acc = foldl accumulate (asStats createBucket) (buckets s)"
    using foldl_accumulate_h_fresh[OF f1(1) assms(1)] by (simp_all add: st2_def f1(2) assms(2))
  define st3 where "st3 = sort_h acc st2"
  note f3 = sort_h_fresh[OF f2, folded st3_def]
  define st4 where "st4 = mean_h acc st3"
  note f4 = mean_h_fresh[OF f3(1), folded st4_def]
  define st5 where "st5 = (if en then foldl (setPercentile_h acc) st4 ps
                else foldl (zeroPercentile_h acc) st4 ps)"
  have f5: "fresh st0 st5 acc"
    and v5: "statsOf st5 acc =
      (if en then foldl (setPercentile (latencyTimes (statsOf st4 acc))) (statsOf st4 acc) ps
       else foldl zeroPercentile (statsOf st4 acc) ps)"
    using foldl_setPercentile_h_fresh[OF f4(1), of ps] foldl_zeroPercentile_h_fresh[OF f4(1), of ps]
    by (simp_all add: st5_def)
  have unf: "stats_h bs ps en st0 =
      (case bs of [] \<Rightarrow> Inl TypeError
       | b # _ \<Rightarrow> Inr (acc, st5\<lparr>objects := (objects st5)
                    [acc := (objects st5 ! acc)
                       \<lparr>isCircuitBreakerOpen_o := isCircuitBreakerOpen_o (objects st5 ! b)\<rparr>]\<rparr>))"
    by (cases en; cases bs)
       (simp_all add: stats_h_def c st2_def st3_def st4_def st5_def Let_def)
  show ?thesis
  proof (cases bs)
    case Nil
    with unf have "stats_h bs ps en st0 = Inl TypeError" by simp
    moreover have "stats s = Inl TypeError" using assms(2) Nil by (simp add: stats_Inl_iff)
    ultimately show ?thesis by simp
  next
    case (Cons b bs')
    let ?st6 = "st5\<lparr>objects := (objects st5)
                    [acc := (objects st5 ! acc)
                       \<lparr>isCircuitBreakerOpen_o := isCircuitBreakerOpen_o (objects st5 ! b)\<rparr>]\<rparr>"
    have ext5: "extends st0 st5" and al5: "allocated st5 acc"
      and lo: "length (objects st0) \<le> acc"
      using f5 by (simp_all add: fresh_def)
    have b: "allocated st0 b" using assms(1) Cons by simp
    then have ob: "objects st5 ! b = objects st0 ! b"
      using extends_nth(1)[OF ext5] by (simp add: allocated_def)
    have ext6: "extends st0 ?st6" using ext5 lo by (simp add: extends_def)
    have v6: "statsOf ?st6 acc =
        (statsOf st5 acc)\<lparr>isCircuitBreakerOpen := isCircuitBreakerOpen (bucketOf st0 b)\<rparr>"
      using al5 ob by (simp add: statsOf_def bucketOf_def allocated_def Let_def)
    have srt: "sort xs = [] \<longleftrightarrow> xs = []" for xs :: "int list"
      by (metis length_sort length_0_conv)
    have "stats s = Inr (statsOf ?st6 acc)"
      unfolding v6 v5 f4(2) f3(2) v2
      using assms(2,3,4) Cons
      by (simp add: stats_def Let_def srt)
    moreover have "stats_h bs ps en st0 = Inr (acc, ?st6)" using unf Cons by simp
    ultimately show ?thesis using ext6 by simp
  qed
qed


lemma createBucket_h_allocated:
  assumes "createBucket_h st = (r, st')"
  shows "allocated st' r" and "extends st st'"
  using createBucket_h_fresh(1)[OF assms] by (simp_all add: fresh_def)

lemma bump_o_refs:
  "latencyTimes_o (bump_o p b) = latencyTimes_o b" "percentiles_o (bump_o p b) = percentiles_o b"
  by (cases p; simp add: bump_o_def)+

lemma allocated_update:
  assumes "allocated st r" and "b < length (objects st)"
    and "latencyTimes_o v = latencyTimes_o (objects st ! b)"
    and "percentiles_o v = percentiles_o (objects st ! b)"
  shows "allocated (st\<lparr>objects := (objects st)[b := v]\<rparr>) r"
  using assms by (cases "r = b") (auto simp: allocated_def)

lemma increment_h_allocated:
  assumes "increment_h p l bs st = Inr st'" and "\<forall>b\<in>set bs. allocated st b"
  shows "\<forall>b\<in>set bs. allocated st' b"
proof -
  from assms(1) obtain b bs' where bs: "bs = b # bs'"
    by (cases bs) (simp_all add: increment_h_def)
  have b: "b < length (objects st)" using assms(2) bs by (simp add: allocated_def)
  let ?st1 = "st\<lparr>objects := (objects st)[b := bump_o p (objects st ! b)]\<rparr>"
  have a1: "\<forall>r\<in>set bs. allocated ?st1 r"
    using assms(2) b by (auto intro!: allocated_update simp: bump_o_refs)
  show ?thesis
  proof (cases l)
    case None
    then show ?thesis using assms(1) a1 by (simp add: increment_h_def bs)
  next
    case (Some x)
    then have "st' = ?st1\<lparr>arrays := (arrays ?st1)
        [latencyTimes_o (objects ?st1 ! b) := arrays ?st1 ! latencyTimes_o (objects ?st1 ! b) @ [x]]\<rparr>"
      using assms(1) by (simp add: increment_h_def bs Let_def)
    then show ?thesis using a1 by (simp add: allocated_def)
  qed
qed

lemma setOpen_h_allocated:
  assumes "setOpen_h v bs st = Inr st'" and "\<forall>b\<in>set bs. allocated st b"
  shows "\<forall>b\<in>set bs. allocated st' b"
proof -
  from assms(1) obtain b bs' where bs: "bs = b # bs'"
    by (cases bs) (simp_all add: setOpen_h_def)
  have b: "b < length (objects st)" using assms(2) bs by (simp add: allocated_def)
  have "st' = st\<lparr>objects := (objects st)[b := (objects st ! b)\<lparr>isCircuitBreakerOpen_o := v\<rparr>]\<rparr>"
    using assms(1) by (simp add: setOpen_h_def bs)
  then show ?thesis using assms(2) b by (auto intro!: allocated_update)
qed

lemma call_h_allocated:
  assumes "call_h c (bs, st) = Inr (bs', st')" and "\<forall>b\<in>set bs. allocated st b"
  shows "\<forall>b\<in>set bs'. allocated st' b"
proof (cases c)
  case (Increment p l)
  with assms(1) have "increment_h p l bs st = Inr st'" "bs' = bs"
    by (auto simp: call_h_def bind_r_def split: sum.splits)
  then show ?thesis using increment_h_allocated assms(2) by blast
next
  case Rotation
  obtain r st1 where c: "createBucket_h st = (r, st1)" by (cases "createBucket_h st")
  with assms(1) Rotation have eq: "bs' = r # butlast bs" "st' = st1"
    by (simp_all add: call_h_def)
  note a = createBucket_h_allocated[OF c]
  have "\<forall>b\<in>set (butlast bs). allocated st1 b"
    using assms(2) extends_allocated[OF a(2)] by (auto dest: in_set_butlastD)
  then show ?thesis using a(1) eq by simp
next
  case MarkOpen
  with assms(1) have "setOpen_h True bs st = Inr st'" "bs' = bs"
    by (auto simp: call_h_def bind_r_def split: sum.splits)
  then show ?thesis using setOpen_h_allocated assms(2) by blast
next
  case MarkClose
  with assms(1) have "setOpen_h False bs st = Inr st'" "bs' = bs"
    by (auto simp: call_h_def bind_r_def split: sum.splits)
  then show ?thesis using setOpen_h_allocated assms(2) by blast
qed

lemma stats_h_frame:
  assumes "\<forall>b\<in>set bs. allocated st b" and "bs \<noteq> []"
  shows "\<exists>r st'. stats_h bs ps en st = Inr (r, st') \<and> extends st st' \<and>
           map (bucketOf st') bs = map (bucketOf st) bs \<and>
           (\<forall>b\<in>set bs. allocated st' b) \<and>
           (\<forall>s. buckets s = map (bucketOf st) bs \<and> percentiles_S s = ps \<and>
                rollingPercentilesEnabled_S s = en \<longrightarrow> stats s = Inr (statsOf st' r))"
proof -
  define s0 :: Status where "s0 = \<lparr>buckets = map (bucketOf st) bs, timeout = 0, percentiles_S = ps,
     rollingPercentilesEnabled_S = en, rotationTimer = None\<rparr>"
  have s0: "buckets s0 = map (bucketOf st) bs" "percentiles_S s0 = ps"
    "rollingPercentilesEnabled_S s0 = en" by (simp_all add: s0_def)
  have "\<exists>sn. stats s0 = Inr sn" using assms(2) s0(1) by (simp add: stats_Inr_iff)
  with stats_h_refines[OF assms(1) s0] obtain r st'
    where r: "stats_h bs ps en st = Inr (r, st')" and ext: "extends st st'"
    by (cases "stats_h bs ps en st") (auto split: prod.splits simp: )
  have same: "map (bucketOf st') bs = map (bucketOf st) bs"
    using extends_bucketOf[OF ext] assms(1) by simp
  have al: "\<forall>b\<in>set bs. allocated st' b" using extends_allocated[OF ext] assms(1) by blast
  have ref: "stats s = Inr (statsOf st' r)"
    if "buckets s = map (bucketOf st) bs \<and> percentiles_S s = ps \<and> rollingPercentilesEnabled_S s = en"
    for s
    using stats_h_refines[OF assms(1), of s ps en] that r by simp
  show ?thesis using r ext same al ref by blast
qed


subsection \<open>The value model follows the store\<close>

lemma bucketOf_createBucket_h:
  assumes "createBucket_h st = (r, st')"
  shows "bucketOf st' r = createBucket" "r = length (objects st)"
    "latencyTimes_o (objects st' ! r) = length (arrays st)"
  using assms by (auto simp: createBucket_h_def bucketOf_def createBucket_def nth_append)

lemma separate_cons_new:
  assumes "createBucket_h st = (r, st')" and "separate (bs, st)"
  shows "separate (r # bs, st')"
proof -
  note a = createBucket_h_allocated[OF assms(1)]
  note n = bucketOf_createBucket_h[OF assms(1)]
  have al: "\<forall>b\<in>set bs. allocated st b" and d: "distinct bs"
    and dl: "distinct (map (\<lambda>b. latencyTimes_o (objects st ! b)) bs)"
    using assms(2) by (simp_all add: separate_def)
  have old: "objects st' ! b = objects st ! b" if "b \<in> set bs" for b
    using that al extends_nth(1)[OF a(2)] by (simp add: allocated_def)
  have "r \<notin> set bs" using al n(2) by (auto simp: allocated_def)
  moreover have "latencyTimes_o (objects st' ! r) \<notin> (\<lambda>b. latencyTimes_o (objects st' ! b)) ` set bs"
    using al old n(3) by (auto simp: allocated_def)
  moreover have "map (\<lambda>b. latencyTimes_o (objects st' ! b)) bs =
                 map (\<lambda>b. latencyTimes_o (objects st ! b)) bs"
    using old by simp
  then have "distinct (map (\<lambda>b. latencyTimes_o (objects st' ! b)) bs)" using dl by metis
  moreover have "\<forall>b\<in>set bs. allocated st' b" using al extends_allocated[OF a(2)] by blast
  ultimately show ?thesis using a(1) d by (simp add: separate_def)
qed

lemma separate_butlast: "separate (bs, st) \<Longrightarrow> separate (butlast bs, st)"
  by (auto simp: separate_def distinct_butlast map_butlast dest: in_set_butlastD)

lemma createBucket_h_lengths:
  assumes "createBucket_h st = (r, st')"
  shows "length (objects st') = Suc (length (objects st))"
    "length (arrays st') = Suc (length (arrays st))"
  using assms by (auto simp: createBucket_h_def)

lemma extends_trans: "extends a b \<Longrightarrow> extends b c \<Longrightarrow> extends a c"
  using extends_length[of a b]
  unfolding extends_def by (metis min.absorb2 take_take min.commute)

lemma newBuckets_h_new:
  "newBuckets_h n st = (rs, st') \<Longrightarrow>
   extends st st' \<and> distinct rs \<and>
   distinct (map (\<lambda>b. latencyTimes_o (objects st' ! b)) rs) \<and>
   (\<forall>b\<in>set rs. allocated st' b \<and> length (objects st) \<le> b \<and>
      length (arrays st) \<le> latencyTimes_o (objects st' ! b) \<and>
      bucketOf st' b = createBucket) \<and>
   length rs = n"
proof (induction n arbitrary: st rs st')
  case 0
  then show ?case by (simp add: extends_refl)
next
  case (Suc n)
  obtain r st1 where c: "createBucket_h st = (r, st1)" by (cases "createBucket_h st")
  obtain rs1 st2 where n: "newBuckets_h n st1 = (rs1, st2)" by (cases "newBuckets_h n st1")
  from Suc.prems c n have eq: "rs = r # rs1" "st' = st2" by simp_all
  note ih = Suc.IH[OF n]
  note a = createBucket_h_allocated[OF c]
  note cb = bucketOf_createBucket_h[OF c]
  note ln = createBucket_h_lengths[OF c]
  have e12: "extends st1 st2" using ih by simp
  have o2: "objects st2 ! r = objects st1 ! r"
    using extends_nth(1)[OF e12, of r] a(1) by (simp add: allocated_def)
  have r2: "allocated st2 r" using extends_allocated[OF e12 a(1)] .
  have b2: "bucketOf st2 r = createBucket" using extends_bucketOf[OF e12 a(1)] cb(1) by simp
  have "r \<notin> set rs1" using ih cb(2) ln(1) by auto
  moreover have "latencyTimes_o (objects st2 ! r) \<notin> (\<lambda>b. latencyTimes_o (objects st2 ! b)) ` set rs1"
    using ih cb(3) ln(2) o2 by auto
  moreover have "\<forall>b\<in>set rs1. length (objects st) \<le> b \<and>
      length (arrays st) \<le> latencyTimes_o (objects st2 ! b)"
    using ih ln by auto
  ultimately show ?case
    using ih eq extends_trans[OF a(2) e12] r2 b2 cb o2 by auto
qed

lemma newBuckets_h_separate:
  assumes "newBuckets_h n st = (rs, st')"
  shows "separate (rs, st')" and "map (bucketOf st') rs = replicate n createBucket"
proof -
  note nb = newBuckets_h_new[OF assms]
  show "separate (rs, st')" using nb by (simp add: separate_def)
  have "\<forall>b\<in>set rs. bucketOf st' b = createBucket" using nb by blast
  then have "map (bucketOf st') rs = replicate (length rs) createBucket"
    by (simp add: map_replicate_const[symmetric] cong: map_cong)
  then show "map (bucketOf st') rs = replicate n createBucket" using nb by simp
qed

lemma bucketOf_bump_o:
  assumes "b < length (objects st)"
  shows "bucketOf (st\<lparr>objects := (objects st)[b := bump_o p (objects st ! b)]\<rparr>) b'
           = (if b' = b then bump p (bucketOf st b) else bucketOf st b')"
  using assms by (cases p) (auto simp: bucketOf_def bump_o_def bump_def Let_def)

lemma increment_h_refines:
  assumes "separate (bs, st)" and "buckets s = map (bucketOf st) bs"
  shows "case increment_h p l bs st of
           Inl e \<Rightarrow> increment p l s = Inl e
         | Inr st' \<Rightarrow> (\<exists>s'. increment p l s = Inr s' \<and> buckets s' = map (bucketOf st') bs \<and>
                          percentiles_S s' = percentiles_S s \<and>
                          rollingPercentilesEnabled_S s' = rollingPercentilesEnabled_S s) \<and>
                      separate (bs, st')"
proof (cases bs)
  case Nil
  then show ?thesis using assms(2) by (simp add: increment_h_def increment_def)
next
  case (Cons b rest)
  have al: "\<forall>r\<in>set bs. allocated st r" and d: "distinct bs"
    and dl: "distinct (map (\<lambda>b. latencyTimes_o (objects st ! b)) bs)"
    using assms(1) by (simp_all add: separate_def)
  have b: "b < length (objects st)" "latencyTimes_o (objects st ! b) < length (arrays st)"
    using al Cons by (simp_all add: allocated_def)
  let ?st1 = "st\<lparr>objects := (objects st)[b := bump_o p (objects st ! b)]\<rparr>"
  have o1: "latencyTimes_o (objects ?st1 ! r) = latencyTimes_o (objects st ! r)" for r
    using b by (cases "r = b") (simp_all add: bump_o_refs)
  have a1: "\<forall>r\<in>set bs. allocated ?st1 r"
    using al b by (auto intro!: allocated_update simp: bump_o_refs)
  have sep1: "separate (bs, ?st1)"
    using d a1 dl o1 unfolding separate_def by (simp cong: map_cong)
  have rest: "map (bucketOf ?st1) rest = map (bucketOf st) rest"
    using d Cons bucketOf_bump_o[OF b(1)] by auto
  have v1: "map (bucketOf ?st1) bs = bump p (bucketOf st b) # map (bucketOf st) rest"
    using rest bucketOf_bump_o[OF b(1), of p b] by (simp add: Cons)
  show ?thesis
  proof (cases l)
    case None
    have "increment_h p l bs st = Inr ?st1" by (simp add: increment_h_def Cons None)
    moreover have "increment p l s = Inr (s\<lparr>buckets := bump p (bucketOf st b) # map (bucketOf st) rest\<rparr>)"
      using assms(2) by (simp add: increment_def Cons None push_def)
    ultimately show ?thesis using v1 sep1 by simp
  next
    case (Some x)
    let ?a = "latencyTimes_o (objects st ! b)"
    let ?st2 = "?st1\<lparr>arrays := (arrays ?st1)[?a := arrays ?st1 ! ?a @ [x]]\<rparr>"
    have i: "increment_h p l bs st = Inr ?st2"
      using o1[of b] by (simp add: increment_h_def Cons Some Let_def)
    have sep2: "separate (bs, ?st2)"
      using sep1 by (simp add: separate_def allocated_def)
    have other: "?a \<noteq> latencyTimes_o (objects st ! r)" if "r \<in> set rest" for r
      using dl that Cons by (fastforce simp: image_iff)
    have r2: "map (bucketOf ?st2) rest = map (bucketOf ?st1) rest"
      using other o1 by (auto simp: bucketOf_def Let_def)
    have h2: "bucketOf ?st2 b = push (Some x) (bucketOf ?st1 b)"
      using b o1[of b] by (simp add: bucketOf_def push_def Let_def)
    have v2: "map (bucketOf ?st2) bs = push l (bump p (bucketOf st b)) # map (bucketOf st) rest"
      using r2 rest h2 bucketOf_bump_o[OF b(1), of p b] by (simp add: Cons Some)
    have "increment p l s = Inr (s\<lparr>buckets := push l (bump p (bucketOf st b)) # map (bucketOf st) rest\<rparr>)"
      using assms(2) by (simp add: increment_def Cons)
    then show ?thesis using i v2 sep2 by simp
  qed
qed

lemma setOpen_h_refines:
  assumes "separate (bs, st)" and "buckets s = map (bucketOf st) bs"
  shows "case setOpen_h v bs st of
           Inl e \<Rightarrow> (if v then open_S s else close_S s) = Inl e
         | Inr st' \<Rightarrow> (\<exists>s'. (if v then open_S s else close_S s) = Inr s' \<and>
                          buckets s' = map (bucketOf st') bs \<and>
                          percentiles_S s' = percentiles_S s \<and>
                          rollingPercentilesEnabled_S s' = rollingPercentilesEnabled_S s) \<and>
                      separate (bs, st')"
proof (cases bs)
  case Nil
  then show ?thesis using assms(2) by (simp add: setOpen_h_def open_S_def close_S_def)
next
  case (Cons b rest)
  have al: "\<forall>r\<in>set bs. allocated st r" and d: "distinct bs"
    and dl: "distinct (map (\<lambda>b. latencyTimes_o (objects st ! b)) bs)"
    using assms(1) by (simp_all add: separate_def)
  have b: "b < length (objects st)" using al Cons by (simp add: allocated_def)
  let ?st1 = "st\<lparr>objects := (objects st)[b := (objects st ! b)\<lparr>isCircuitBreakerOpen_o := v\<rparr>]\<rparr>"
  have o1: "latencyTimes_o (objects ?st1 ! r) = latencyTimes_o (objects st ! r)" for r
    using b by (cases "r = b") simp_all
  have a1: "\<forall>r\<in>set bs. allocated ?st1 r"
    using al b by (auto intro!: allocated_update)
  have sep1: "separate (bs, ?st1)"
    using d a1 dl o1 unfolding separate_def by (simp cong: map_cong)
  have ne: "b \<noteq> r" if "r \<in> set rest" for r using d Cons that by auto
  have rest: "map (bucketOf ?st1) rest = map (bucketOf st) rest"
    using ne by (simp add: bucketOf_def Let_def)
  have hd: "bucketOf ?st1 b = (bucketOf st b)\<lparr>isCircuitBreakerOpen := v\<rparr>"
    using b by (simp add: bucketOf_def Let_def)
  have "setOpen_h v bs st = Inr ?st1" by (simp add: setOpen_h_def Cons)
  moreover have "(if v then open_S s else close_S s) =
      Inr (s\<lparr>buckets := (bucketOf st b)\<lparr>isCircuitBreakerOpen := v\<rparr> # map (bucketOf st) rest\<rparr>)"
    using assms(2) by (simp add: open_S_def close_S_def Cons)
  ultimately show ?thesis using rest hd sep1 by (simp add: Cons)
qed

lemma call_h_refines:
  assumes "separate w" and "buckets s = map (bucketOf (snd w)) (fst w)"
  shows "case call_h c w of
           Inl e \<Rightarrow> call c s = Inl e
         | Inr w' \<Rightarrow> (\<exists>s'. call c s = Inr s' \<and> buckets s' = map (bucketOf (snd w')) (fst w') \<and>
                          percentiles_S s' = percentiles_S s \<and>
                          rollingPercentilesEnabled_S s' = rollingPercentilesEnabled_S s) \<and>
                      separate w'"
proof -
  obtain bs st where w: "w = (bs, st)" by (cases w)
  note sep = assms(1)[unfolded w]
  have bk: "buckets s = map (bucketOf st) bs" using assms(2) by (simp add: w)
  show ?thesis
  proof (cases c)
    case (Increment p l)
    from increment_h_refines[OF sep bk, of p l] show ?thesis
      by (auto simp: call_h_def call_def Increment w bind_r_def split: sum.splits)
  next
    case Rotation
    obtain r st1 where c: "createBucket_h st = (r, st1)" by (cases "createBucket_h st")
    have s1: "separate (r # butlast bs, st1)"
      using separate_cons_new[OF c separate_butlast[OF sep]] .
    note a = createBucket_h_allocated[OF c]
    have "map (bucketOf st1) (butlast bs) = map (bucketOf st) (butlast bs)"
      using sep extends_bucketOf[OF a(2)] by (auto simp: separate_def dest: in_set_butlastD)
    then have "map (bucketOf st1) (r # butlast bs) = createBucket # butlast (buckets s)"
      using bucketOf_createBucket_h(1)[OF c] bk by (simp add: map_butlast)
    then show ?thesis using s1 c
      by (simp add: call_h_def call_def Rotation w rotation_def)
  next
    case MarkOpen
    from setOpen_h_refines[OF sep bk, of True] show ?thesis
      by (auto simp: call_h_def call_def MarkOpen w bind_r_def split: sum.splits)
  next
    case MarkClose
    from setOpen_h_refines[OF sep bk, of False] show ?thesis
      by (auto simp: call_h_def call_def MarkClose w bind_r_def split: sum.splits)
  qed
qed

lemma calls_h_refines:
  assumes "separate w" and "buckets s = map (bucketOf (snd w)) (fst w)"
  shows "case calls_h cs w of
           Inl e \<Rightarrow> calls cs s = Inl e
         | Inr w' \<Rightarrow> (\<exists>s'. calls cs s = Inr s' \<and> buckets s' = map (bucketOf (snd w')) (fst w') \<and>
                          percentiles_S s' = percentiles_S s \<and>
                          rollingPercentilesEnabled_S s' = rollingPercentilesEnabled_S s) \<and>
                      separate w'"
  using assms
proof (induction cs arbitrary: w s)
  case Nil
  then show ?case by simp
next
  case (Cons c cs)
  show ?case
  proof (cases "call_h c w")
    case (Inl e)
    then show ?thesis using call_h_refines[OF Cons.prems, of c] by (simp add: bind_r_def)
  next
    case (Inr w1)
    with call_h_refines[OF Cons.prems, of c] obtain s1 where s1: "call c s = Inr s1"
      and b1: "buckets s1 = map (bucketOf (snd w1)) (fst w1)"
      and p1: "percentiles_S s1 = percentiles_S s"
        "rollingPercentilesEnabled_S s1 = rollingPercentilesEnabled_S s"
      and sep1: "separate w1" by auto
    from Cons.IH[OF sep1 b1] show ?thesis
      by (auto simp: Inr s1 p1 bind_r_def split: sum.splits)
  qed
qed

subsection \<open>Reading the snapshot\<close>

lemma separate_allocated: "separate (bs, st) \<Longrightarrow> \<forall>b\<in>set bs. allocated st b"
  by (simp add: separate_def)


text \<open>
  C10. Take the store after the constructor has allocated the buckets of a window and after
  any sequence of increments, rotations and open and close marks. Reading the snapshot
  succeeds and leaves every object, every array and every table of that store as it was;
  so the counters, the sample lists in their order, the tables and the open flags of all
  buckets of the window are the same before and after the read. A second read right after
  the first returns an aggregate with the same values and again leaves the buckets as they
  were. The aggregate is the one that the value model computes for the same calls.
\<close>

theorem snapshot_leaves_buckets_unchanged:
  assumes "newBuckets_h n st0 = (bs0, st1)"
    and "calls_h cs (bs0, st1) = Inr (bs, st)"
    and "bs \<noteq> []"
  shows "\<exists>r st'. stats_h bs ps en st = Inr (r, st') \<and>
           (\<forall>a<length (objects st). objects st' ! a = objects st ! a) \<and>
           (\<forall>a<length (arrays st). arrays st' ! a = arrays st ! a) \<and>
           (\<forall>a<length (dicts st). dicts st' ! a = dicts st ! a) \<and>
           map (bucketOf st') bs = map (bucketOf st) bs \<and>
           (\<exists>r2 st2. stats_h bs ps en st' = Inr (r2, st2) \<and>
              statsOf st2 r2 = statsOf st' r \<and>
              map (bucketOf st2) bs = map (bucketOf st) bs) \<and>
           (\<forall>s. buckets s = replicate n createBucket \<and> percentiles_S s = ps \<and>
                rollingPercentilesEnabled_S s = en \<longrightarrow>
                (\<exists>s'. calls cs s = Inr s' \<and> buckets s' = map (bucketOf st) bs \<and>
                      stats s' = Inr (statsOf st' r)))"
proof -
  note nb = newBuckets_h_separate[OF assms(1)]
  define s0 :: Status where "s0 = \<lparr>buckets = replicate n createBucket, timeout = 0,
     percentiles_S = ps, rollingPercentilesEnabled_S = en, rotationTimer = None\<rparr>"
  have b0: "buckets s0 = map (bucketOf (snd (bs0, st1))) (fst (bs0, st1))"
    using nb(2) by (simp add: s0_def)
  from calls_h_refines[OF nb(1) b0, of cs] assms(2)
  have sep: "separate (bs, st)" by simp
  note al = separate_allocated[OF sep]
  from stats_h_frame[OF al assms(3), of ps en] obtain r st'
    where r: "stats_h bs ps en st = Inr (r, st')" and ext: "extends st st'"
      and same: "map (bucketOf st') bs = map (bucketOf st) bs"
      and al': "\<forall>b\<in>set bs. allocated st' b"
      and ref: "\<And>s. buckets s = map (bucketOf st) bs \<and> percentiles_S s = ps \<and>
                rollingPercentilesEnabled_S s = en \<Longrightarrow> stats s = Inr (statsOf st' r)"
    by blast
  from stats_h_frame[OF al' assms(3), of ps en] obtain r2 st2
    where r2: "stats_h bs ps en st' = Inr (r2, st2)"
      and same2: "map (bucketOf st2) bs = map (bucketOf st') bs"
      and ref2: "\<And>s. buckets s = map (bucketOf st') bs \<and> percentiles_S s = ps \<and>
                rollingPercentilesEnabled_S s = en \<Longrightarrow> stats s = Inr (statsOf st2 r2)"
    by blast
  define s1 :: Status where "s1 = \<lparr>buckets = map (bucketOf st) bs, timeout = 0,
     percentiles_S = ps, rollingPercentilesEnabled_S = en, rotationTimer = None\<rparr>"
  have "stats s1 = Inr (statsOf st' r)" using ref[of s1] by (simp add: s1_def)
  moreover have "stats s1 = Inr (statsOf st2 r2)" using ref2[of s1] same by (simp add: s1_def)
  ultimately have eq: "statsOf st2 r2 = statsOf st' r" by simp
  have val: "\<exists>s'. calls cs s = Inr s' \<and> buckets s' = map (bucketOf st) bs \<and>
                      stats s' = Inr (statsOf st' r)"
    if h: "buckets s = replicate n createBucket \<and> percentiles_S s = ps \<and>
                rollingPercentilesEnabled_S s = en" for s
  proof -
    have bs: "buckets s = map (bucketOf (snd (bs0, st1))) (fst (bs0, st1))"
      using nb(2) h by simp
    from calls_h_refines[OF nb(1) bs, of cs] assms(2)
    obtain s' where s': "calls cs s = Inr s'" "buckets s' = map (bucketOf st) bs"
      "percentiles_S s' = percentiles_S s"
      "rollingPercentilesEnabled_S s' = rollingPercentilesEnabled_S s"
      by auto
    then show ?thesis using ref[of s'] h by auto
  qed
  show ?thesis
    using r extends_nth[OF ext] same r2 eq same2 val by (intro exI[of _ r] exI[of _ st']) auto
qed


lemma sample_window:
  "(case calls sampleCalls twoBuckets of
      Inl _ \<Rightarrow> False
    | Inr s' \<Rightarrow>
        map latencyTimes (buckets s') = [[], [250, 50]] \<and>
        (case stats s' of Inl _ \<Rightarrow> False | Inr sn \<Rightarrow> latencyTimes sn = [50, 250]))"
  by code_simp

lemma twoBuckets_fields:
  "buckets twoBuckets = replicate 2 createBucket \<and> percentiles_S twoBuckets = defaultPercentiles \<and>
   rollingPercentilesEnabled_S twoBuckets = True"
  by (simp add: twoBuckets_def eval_nat_numeral)

theorem snapshot_leaves_buckets_unchanged_witness:
  "\<exists>bs0 st1 bs st.
     newBuckets_h 2 emptyStore = (bs0, st1) \<and>
     calls_h sampleCalls (bs0, st1) = Inr (bs, st) \<and> bs \<noteq> [] \<and>
     (\<exists>r st'. stats_h bs defaultPercentiles True st = Inr (r, st') \<and>
        map (bucketOf st') bs = map (bucketOf st) bs \<and>
        latencyTimes (statsOf st' r) = [50, 250] \<and>
        map latencyTimes (map (bucketOf st') bs) = [[], [250, 50]])"
proof -
  obtain bs0 st1 where h1: "newBuckets_h 2 emptyStore = (bs0, st1)"
    by (cases "newBuckets_h 2 emptyStore")
  note nb = newBuckets_h_separate[OF h1]
  have b0: "buckets twoBuckets = map (bucketOf (snd (bs0, st1))) (fst (bs0, st1))"
    using nb(2) twoBuckets_fields by simp
  obtain s' where s': "calls sampleCalls twoBuckets = Inr s'"
    and lat: "map latencyTimes (buckets s') = [[], [250, 50]]"
    and agg: "case stats s' of Inl _ \<Rightarrow> False | Inr sn \<Rightarrow> latencyTimes sn = [50, 250]"
    using sample_window by (cases "calls sampleCalls twoBuckets") auto
  from calls_h_refines[OF nb(1) b0, of sampleCalls] s'
  obtain bs st where h2: "calls_h sampleCalls (bs0, st1) = Inr (bs, st)"
    and bk: "buckets s' = map (bucketOf st) bs"
    by (cases "calls_h sampleCalls (bs0, st1)") auto
  have h3: "bs \<noteq> []" using bk lat by auto
  from snapshot_leaves_buckets_unchanged[OF h1 h2 h3, of defaultPercentiles True]
  obtain r st' where r: "stats_h bs defaultPercentiles True st = Inr (r, st')"
    and same: "map (bucketOf st') bs = map (bucketOf st) bs"
    and val: "\<forall>s. buckets s = replicate 2 createBucket \<and> percentiles_S s = defaultPercentiles \<and>
                rollingPercentilesEnabled_S s = True \<longrightarrow>
                (\<exists>s'. calls sampleCalls s = Inr s' \<and> buckets s' = map (bucketOf st) bs \<and>
                      stats s' = Inr (statsOf st' r))"
    by blast
  from val[rule_format, of twoBuckets] twoBuckets_fields s'
  have "stats s' = Inr (statsOf st' r)" by auto
  with agg have a: "latencyTimes (statsOf st' r) = [50, 250]" by simp
  have b: "map latencyTimes (map (bucketOf st') bs) = [[], [250, 50]]"
    unfolding same using bk lat by metis
  have inner: "\<exists>r st'. stats_h bs defaultPercentiles True st = Inr (r, st') \<and>
        map (bucketOf st') bs = map (bucketOf st) bs \<and>
        latencyTimes (statsOf st' r) = [50, 250] \<and>
        map latencyTimes (map (bucketOf st') bs) = [[], [250, 50]]"
    using r same a b by (intro exI[of _ r] exI[of _ st']) simp
  show ?thesis
    using h1 h2 h3 inner
    by (intro exI[of _ bs0] exI[of _ st1] exI[of _ bs] exI[of _ st]) simp
qed

end
